theory Spec2Isabelle
  imports Main "HOL-Library.Word"
begin

unbundle bit_operations_syntax

section \<open>SynchroTraceGen: event aggregation and communication detection\<close>

text \<open>
  A shallow embedding of the SynchroTraceGen backend of Sigil2: the address-range set
  (\<open>AddrSet\<close>), the compute and communication aggregators (\<open>STCompEvent\<close>,
  \<open>STCommEvent\<close>), the per-thread state machine (\<open>ThreadContext\<close>), the dispatcher
  (\<open>EventHandlers\<close>) and the compute-record path of the packed-binary encoder
  (\<open>CapnLogger\<close>).

  Every mutation is explicit state passing. \<open>assert\<close>, \<open>fatal\<close> and the dereference
  of a null \<open>cachedTCxt\<close> end the run; they are the \<open>Inl\<close> branch of the result.
\<close>

subsection \<open>Basic types\<close>

text \<open>
  Modelled from the spec: the types \<open>Addr\<close>, \<open>StatCounter\<close>, \<open>EID\<close> and \<open>TID\<close> are
  declared in headers that are not among the sources. \<open>Addr\<close> is an unsigned byte
  address as wide as the target's pointers, here 64 bits: arithmetic on it wraps around.
  \<open>StatCounter\<close> and \<open>EID\<close> are unsigned 64-bit counters (the thread's \<open>events\<close>
  counter is a \<open>StatCounter\<close> and is handed to the logger as the \<open>EID\<close>). \<open>TID\<close> is
  only ever compared, never computed with, so it is an \<open>int\<close>.
\<close>

type_synonym Addr = "64 word"
type_synonym StatCounter = "64 word"
type_synonym EID = "64 word"
type_synonym TID = int
type_synonym AddrRange = "Addr \<times> Addr"

datatype error =
    AssertionFailed
  | EventIdOverflow
  | NullDereference

subsection \<open>Unique address set (\<open>AddrSet\<close>)\<close>

text \<open>
  \<open>ms\<close> is an ordered container of address pairs (a \<open>std::multiset\<close>, so that equal
  pairs may be stored twice): a list kept in the order of \<open>operator<\<close> on pairs (first
  component, then second).
\<close>

definition range_less :: "AddrRange \<Rightarrow> AddrRange \<Rightarrow> bool" where
  "range_less p q = (fst p < fst q \<or> (fst p = fst q \<and> snd p < snd q))"

text \<open>\<open>ms.insert(range)\<close>, \<open>ms.emplace(a, b)\<close>: the element goes after every element
  that is not greater than it.\<close>

fun ms_insert :: "AddrRange \<Rightarrow> AddrRange list \<Rightarrow> AddrRange list" where
  "ms_insert r [] = [r]"
| "ms_insert r (x # xs) = (if range_less r x then r # x # xs else x # ms_insert r xs)"

text \<open>\<open>ms.lower_bound(range)\<close>: the position of the first element that is not less
  than \<open>range\<close>; \<open>length ms\<close> stands for \<open>ms.cend()\<close>, \<open>0\<close> for \<open>ms.cbegin()\<close>.\<close>

fun lower_bound :: "AddrRange \<Rightarrow> AddrRange list \<Rightarrow> nat" where
  "lower_bound r [] = 0"
| "lower_bound r (x # xs) = (if range_less x r then Suc (lower_bound r xs) else 0)"

text \<open>\<open>ms.erase(it)\<close>.\<close>

definition ms_erase :: "nat \<Rightarrow> AddrRange list \<Rightarrow> AddrRange list" where
  "ms_erase i ms = take i ms @ drop (Suc i) ms"

text \<open>
  The iterator \<open>it\<close> that \<open>AddrSet::insert\<close> examines, for a non-empty \<open>ms\<close>: the
  lower bound, moved back to the preceding element when there is no element at or above
  \<open>range\<close>, or when the preceding element reaches \<open>range.first - 1\<close>.
\<close>

definition insert_it :: "AddrRange \<Rightarrow> AddrRange list \<Rightarrow> nat" where
  "insert_it rng ms =
     (let it = lower_bound rng ms in
      if it \<noteq> 0 then
        (if it = length ms then length ms - 1
         else (if fst rng > snd (ms ! (it - 1)) + 1 then it else it - 1))
      else it)"

lemma lower_bound_le: "lower_bound r ms \<le> length ms"
  by (induction ms) auto

lemma insert_it_less: "ms \<noteq> [] \<Longrightarrow> insert_it rng ms < length ms"
  using lower_bound_le [of rng ms]
  by (auto simp: insert_it_def Let_def)

lemma length_ms_erase: "i < length ms \<Longrightarrow> length (ms_erase i ms) < length ms"
  by (simp add: ms_erase_def)

function AddrSet_insert :: "AddrRange \<Rightarrow> AddrRange list \<Rightarrow> error + AddrRange list" where
  "AddrSet_insert rng ms =
     (if \<not> fst rng \<le> snd rng then Inl AssertionFailed
      else if ms = [] then Inr (ms_insert rng ms)
      else
        (let it = insert_it rng ms; cur = ms ! it in
         if fst rng = snd cur + 1 then
           AddrSet_insert (fst cur, snd rng) (ms_erase it ms)
         else if snd rng + 1 = fst cur then
           AddrSet_insert (fst rng, snd cur) (ms_erase it ms)
         else if fst rng > snd cur then
           Inr (ms_insert rng ms)
         else if fst rng \<ge> fst cur then
           (if snd rng > snd cur then
              AddrSet_insert (fst cur, snd rng) (ms_erase it ms)
            else Inr ms)
         else
           (if snd rng < fst cur then
              Inr (ms_insert rng ms)
            else if snd rng \<le> snd cur then
              Inr (ms_insert (fst rng, snd cur) (ms_erase it ms))
            else
              AddrSet_insert rng (ms_erase it ms))))"
  by pat_completeness auto
termination
  by (relation "measure (\<lambda>(rng, ms). length ms)")
     (auto intro!: length_ms_erase insert_it_less)

declare AddrSet_insert.simps [simp del]

text \<open>\<open>AddrSet::clear\<close> and the constructor \<open>AddrSet(range)\<close>.\<close>

definition AddrSet_clear :: "AddrRange list \<Rightarrow> AddrRange list" where
  "AddrSet_clear ms = []"

definition AddrSet_single :: "AddrRange \<Rightarrow> AddrRange list" where
  "AddrSet_single rng = ms_insert rng []"

subsection \<open>Compute event aggregator (\<open>STCompEvent\<close>)\<close>

text \<open>
  The fields carry the names under which \<open>ThreadContext\<close> and \<open>CapnLogger\<close> read
  them (\<open>iops\<close>, \<open>flops\<close>, \<open>reads\<close>, \<open>writes\<close>, \<open>uniqueWriteAddrs\<close>,
  \<open>uniqueReadAddrs\<close>, \<open>isActive\<close>); in \<open>STEvent.cpp\<close> they are \<open>iop_cnt\<close>,
  \<open>flop_cnt\<close>, \<open>thread_local_load_cnt\<close>, \<open>thread_local_store_cnt\<close>,
  \<open>stores_unique\<close>, \<open>loads_unique\<close> and the negation of \<open>is_empty\<close>.
\<close>

record STCompEvent =
  iops :: StatCounter
  flops :: StatCounter
  reads :: StatCounter
  writes :: StatCounter
  total_events :: StatCounter
  uniqueWriteAddrs :: "AddrRange list"
  uniqueReadAddrs :: "AddrRange list"
  isActive :: bool

definition comp_reset :: "STCompEvent \<Rightarrow> STCompEvent" where
  "comp_reset ev =
     ev\<lparr>iops := 0, flops := 0, writes := 0, reads := 0, total_events := 0,
        uniqueWriteAddrs := AddrSet_clear (uniqueWriteAddrs ev),
        uniqueReadAddrs := AddrSet_clear (uniqueReadAddrs ev),
        isActive := False\<rparr>"

text \<open>The constructor only calls \<open>reset\<close>.\<close>

definition comp_init :: STCompEvent where
  "comp_init =
     \<lparr>iops = 0, flops = 0, reads = 0, writes = 0, total_events = 0,
      uniqueWriteAddrs = [], uniqueReadAddrs = [], isActive = False\<rparr>"

definition updateWrites :: "Addr \<Rightarrow> Addr \<Rightarrow> STCompEvent \<Rightarrow> error + STCompEvent" where
  "updateWrites bgn sz ev =
     (case AddrSet_insert (bgn, bgn + sz - 1) (uniqueWriteAddrs ev) of
        Inl e \<Rightarrow> Inl e
      | Inr ms \<Rightarrow> Inr (ev\<lparr>uniqueWriteAddrs := ms\<rparr>))"

definition updateReads :: "Addr \<Rightarrow> Addr \<Rightarrow> STCompEvent \<Rightarrow> error + STCompEvent" where
  "updateReads bgn sz ev =
     (case AddrSet_insert (bgn, bgn + sz - 1) (uniqueReadAddrs ev) of
        Inl e \<Rightarrow> Inl e
      | Inr ms \<Rightarrow> Inr (ev\<lparr>uniqueReadAddrs := ms\<rparr>))"

definition incWrites :: "STCompEvent \<Rightarrow> STCompEvent" where
  "incWrites ev = ev\<lparr>isActive := True, writes := writes ev + 1, total_events := total_events ev + 1\<rparr>"

definition incReads :: "STCompEvent \<Rightarrow> STCompEvent" where
  "incReads ev = ev\<lparr>isActive := True, reads := reads ev + 1, total_events := total_events ev + 1\<rparr>"

definition incIOP :: "STCompEvent \<Rightarrow> STCompEvent" where
  "incIOP ev = ev\<lparr>isActive := True, iops := iops ev + 1, total_events := total_events ev + 1\<rparr>"

definition incFLOP :: "STCompEvent \<Rightarrow> STCompEvent" where
  "incFLOP ev = ev\<lparr>isActive := True, flops := flops ev + 1, total_events := total_events ev + 1\<rparr>"

subsection \<open>Communication event aggregator (\<open>STCommEvent\<close>)\<close>

type_synonym CommEdge = "TID \<times> EID \<times> AddrRange list"

record STCommEvent =
  comms :: "CommEdge list"
  commActive :: bool

definition comm_reset :: "STCommEvent \<Rightarrow> STCommEvent" where
  "comm_reset ev = ev\<lparr>comms := [], commActive := False\<rparr>"

definition comm_init :: STCommEvent where
  "comm_init = \<lparr>comms = [], commActive = False\<rparr>"

text \<open>The \<open>for\<close> loop of \<open>addEdge\<close>: the first edge with the same writer and writer
  event takes the address and the function returns; when the loop runs out, a new edge
  is pushed at the back.\<close>

fun addEdge_loop :: "TID \<Rightarrow> EID \<Rightarrow> Addr \<Rightarrow> CommEdge list \<Rightarrow> error + CommEdge list" where
  "addEdge_loop writer writer_event addr [] =
     Inr [(writer, writer_event, AddrSet_single (addr, addr))]"
| "addEdge_loop writer writer_event addr (edge # rest) =
     (if fst edge = writer \<and> fst (snd edge) = writer_event then
        (case AddrSet_insert (addr, addr) (snd (snd edge)) of
           Inl e \<Rightarrow> Inl e
         | Inr ms \<Rightarrow> Inr ((fst edge, fst (snd edge), ms) # rest))
      else
        (case addEdge_loop writer writer_event addr rest of
           Inl e \<Rightarrow> Inl e
         | Inr rest' \<Rightarrow> Inr (edge # rest')))"

definition addEdge :: "TID \<Rightarrow> EID \<Rightarrow> Addr \<Rightarrow> STCommEvent \<Rightarrow> error + STCommEvent" where
  "addEdge writer writer_event addr ev =
     (if comms ev = [] then
        Inr (ev\<lparr>commActive := True,
                comms := comms ev @ [(writer, writer_event, AddrSet_single (addr, addr))]\<rparr>)
      else
        (case addEdge_loop writer writer_event addr (comms ev) of
           Inl e \<Rightarrow> Inl e
         | Inr cs \<Rightarrow> Inr (ev\<lparr>commActive := True, comms := cs\<rparr>)))"

subsection \<open>Sequencing of fallible steps\<close>

definition bindE :: "error + 'a \<Rightarrow> ('a \<Rightarrow> error + 'b) \<Rightarrow> error + 'b" where
  "bindE m f = (case m of Inl e \<Rightarrow> Inl e | Inr x \<Rightarrow> f x)"

lemma bindE_Inl [simp]: "bindE (Inl e) f = Inl e"
  by (simp add: bindE_def)

lemma bindE_Inr [simp]: "bindE (Inr x) f = f x"
  by (simp add: bindE_def)

text \<open>A fallible step run over a list, left to right, stopping at the first error.\<close>

fun foldE :: "('a \<Rightarrow> 's \<Rightarrow> error + 's) \<Rightarrow> 'a list \<Rightarrow> 's \<Rightarrow> error + 's" where
  "foldE f [] s = Inr s"
| "foldE f (x # xs) s = bindE (f x s) (foldE f xs)"

subsection \<open>Shadow memory (\<open>STShadowMemory\<close>)\<close>

text \<open>
  Modelled from the spec: \<open>STShadowMemory\<close> and the constant \<open>SO_UNDEF\<close> are declared in
  \<open>STShadowMemory.hpp\<close>, which is not among the sources. Per byte the shadow memory holds
  the last writer thread (\<open>SO_UNDEF\<close> when none was recorded), the event id of that
  write and the set of threads that have read the byte since. In strict mode an access
  above the address limit throws \<open>std::out_of_range\<close> (the result \<open>None\<close>); in
  overflow-allowed mode (\<open>addr_limit = None\<close>) every address is accepted.
\<close>

record ShadowCell =
  writer_tid :: TID
  writer_eid :: EID
  reader_set :: "TID set"

record STShadowMemory =
  addr_limit :: "Addr option"
  cells :: "Addr \<Rightarrow> ShadowCell"

text \<open>Modelled from the spec: the value of an undefined writer, which is no thread id
  (thread ids are at least 1).\<close>

definition SO_UNDEF :: TID where
  "SO_UNDEF = - 1"

text \<open>Modelled from the spec: whether an address is inside the shadowed region.\<close>

definition mapped :: "STShadowMemory \<Rightarrow> Addr \<Rightarrow> bool" where
  "mapped sh a = (case addr_limit sh of None \<Rightarrow> True | Some m \<Rightarrow> a \<le> m)"

text \<open>The bytes \<open>[start, start + sz)\<close> in ascending offset.\<close>

definition byte_addrs :: "Addr \<Rightarrow> Addr \<Rightarrow> Addr list" where
  "byte_addrs start sz = map (\<lambda>i. start + of_nat i) [0..<unat sz]"

text \<open>Modelled from the spec: \<open>getWriter(addr)\<close>, the last writer.\<close>

definition getWriterTID :: "STShadowMemory \<Rightarrow> Addr \<Rightarrow> TID option" where
  "getWriterTID sh a = (if mapped sh a then Some (writer_tid (cells sh a)) else None)"

text \<open>Modelled from the spec: \<open>getWriterEid(addr)\<close>, the event id of the last writer.\<close>

definition getWriterEID :: "STShadowMemory \<Rightarrow> Addr \<Rightarrow> EID option" where
  "getWriterEID sh a = (if mapped sh a then Some (writer_eid (cells sh a)) else None)"

text \<open>Modelled from the spec: \<open>isReader(addr, tid)\<close>, the membership test.\<close>

definition isReaderTID :: "STShadowMemory \<Rightarrow> Addr \<Rightarrow> TID \<Rightarrow> bool option" where
  "isReaderTID sh a t = (if mapped sh a then Some (t \<in> reader_set (cells sh a)) else None)"

text \<open>Modelled from the spec: \<open>updateReader(addr, size, tid)\<close> adds the thread to the
  reader set of each byte in \<open>[addr, addr + size)\<close>.\<close>

definition updateReader :: "STShadowMemory \<Rightarrow> Addr \<Rightarrow> Addr \<Rightarrow> TID \<Rightarrow> STShadowMemory option" where
  "updateReader sh a sz t =
     (if list_all (mapped sh) (byte_addrs a sz) then
        Some (sh\<lparr>cells :=
          fold (\<lambda>b c. c(b := (c b)\<lparr>reader_set := insert t (reader_set (c b))\<rparr>))
            (byte_addrs a sz) (cells sh)\<rparr>)
      else None)"

text \<open>Modelled from the spec: \<open>updateWriter(start, size, tid, eid)\<close> marks each byte in
  \<open>[start, start + size)\<close> as written by \<open>(tid, eid)\<close> and clears its reader set.\<close>

definition updateWriter :: "STShadowMemory \<Rightarrow> Addr \<Rightarrow> Addr \<Rightarrow> TID \<Rightarrow> EID \<Rightarrow> STShadowMemory option" where
  "updateWriter sh start sz t e =
     (if list_all (mapped sh) (byte_addrs start sz) then
        Some (sh\<lparr>cells :=
          fold (\<lambda>b c. c(b := \<lparr>writer_tid = t, writer_eid = e, reader_set = {}\<rparr>))
            (byte_addrs start sz) (cells sh)\<rparr>)
      else None)"

text \<open>Modelled from the spec: the shadow memory before the first primitive.\<close>

definition shadow_init :: "Addr option \<Rightarrow> STShadowMemory" where
  "shadow_init lim =
     \<lparr>addr_limit = lim,
      cells = (\<lambda>a. \<lparr>writer_tid = SO_UNDEF, writer_eid = 0, reader_set = {}\<rparr>)\<rparr>"

subsection \<open>Per-thread state (\<open>ThreadContext\<close>)\<close>

record Stats =
  IOP :: StatCounter
  FLOP :: StatCounter
  READ :: StatCounter
  WRITE :: StatCounter
  INSTR :: StatCounter

text \<open>
  The logger strategy and \<open>PerBarrierStats\<close> are collaborators of the thread context:
  each is the list of the calls made on it, in order, with their arguments. A compute or
  communication record carries the aggregator as it is at the call.
\<close>

datatype LogCall =
    FlushComp STCompEvent EID TID
  | FlushComm STCommEvent EID TID
  | FlushSync "8 word" Addr EID TID
  | InstrMarker int

datatype BarrierCall =
    incIOPs | incFLOPs | incMemAccesses | incLocks | barrier Addr | incInstrs

record ThreadContext =
  stComp :: STCompEvent
  stComm :: STCommEvent
  tid :: TID
  primsPerStCompEv :: "32 word"
  logger :: "LogCall list"
  stats :: Stats
  events :: StatCounter
  barrierStats :: "BarrierCall list"

text \<open>The member initialisers of a new context, then the constructor with its two
  assertions.\<close>

definition ThreadContext_init :: "TID \<Rightarrow> 32 word \<Rightarrow> ThreadContext" where
  "ThreadContext_init t p =
     \<lparr>stComp = comp_init, stComm = comm_init, tid = t, primsPerStCompEv = p,
      logger = [],
      stats = \<lparr>IOP = 0, FLOP = 0, READ = 0, WRITE = 0, INSTR = 0\<rparr>,
      events = 0, barrierStats = []\<rparr>"

definition ThreadContext_new :: "TID \<Rightarrow> 32 word \<Rightarrow> error + ThreadContext" where
  "ThreadContext_new t p =
     (if \<not> t \<le> 128 then Inl AssertionFailed
      else if \<not> (p > 0 \<and> p \<le> 100) then Inl AssertionFailed
      else Inr (ThreadContext_init t p))"

text \<open>\<open>INCR_EID_OVERFLOW(events)\<close> followed by \<open>fatal\<close>.\<close>

definition incr_eid :: "ThreadContext \<Rightarrow> error + ThreadContext" where
  "incr_eid c = (if events c = - 1 then Inl EventIdOverflow else Inr (c\<lparr>events := events c + 1\<rparr>))"

definition compFlushIfActive :: "ThreadContext \<Rightarrow> error + ThreadContext" where
  "compFlushIfActive c =
     bindE (if isActive (stComp c) then
              incr_eid (c\<lparr>logger := logger c @ [FlushComp (stComp c) (events c) (tid c)],
                         stComp := comp_reset (stComp c)\<rparr>)
            else Inr c)
       (\<lambda>c'. if isActive (stComp c') then Inl AssertionFailed else Inr c')"

definition commFlushIfActive :: "ThreadContext \<Rightarrow> error + ThreadContext" where
  "commFlushIfActive c =
     bindE (if commActive (stComm c) then
              incr_eid (c\<lparr>logger := logger c @ [FlushComm (stComm c) (events c) (tid c)],
                         stComm := comm_reset (stComm c)\<rparr>)
            else Inr c)
       (\<lambda>c'. if commActive (stComm c') then Inl AssertionFailed else Inr c')"

definition checkCompFlushLimit :: "ThreadContext \<Rightarrow> error + ThreadContext" where
  "checkCompFlushLimit c =
     bindE (if writes (stComp c) \<ge> ucast (primsPerStCompEv c)
               \<or> reads (stComp c) \<ge> ucast (primsPerStCompEv c)
            then compFlushIfActive c else Inr c)
       (\<lambda>c'. if \<not> (isActive (stComp c') = False
                     \<or> (writes (stComp c') < ucast (primsPerStCompEv c')
                         \<and> reads (stComp c') < ucast (primsPerStCompEv c')))
              then Inl AssertionFailed else Inr c')"

definition onIop :: "ThreadContext \<Rightarrow> error + ThreadContext" where
  "onIop c =
     bindE (commFlushIfActive c)
       (\<lambda>c1. Inr (c1\<lparr>stComp := incIOP (stComp c1),
                     stats := (stats c1)\<lparr>IOP := IOP (stats c1) + 1\<rparr>,
                     barrierStats := barrierStats c1 @ [incIOPs]\<rparr>))"

definition onFlop :: "ThreadContext \<Rightarrow> error + ThreadContext" where
  "onFlop c =
     bindE (commFlushIfActive c)
       (\<lambda>c1. Inr (c1\<lparr>stComp := incFLOP (stComp c1),
                     stats := (stats c1)\<lparr>FLOP := FLOP (stats c1) + 1\<rparr>,
                     barrierStats := barrierStats c1 @ [incFLOPs]\<rparr>))"

text \<open>The \<open>catch\<close> block of the byte loop of \<open>onRead\<close>: the byte is a local read.\<close>

definition onRead_catch ::
  "Addr \<Rightarrow> STShadowMemory \<times> ThreadContext \<times> bool \<Rightarrow> error + STShadowMemory \<times> ThreadContext \<times> bool" where
  "onRead_catch addr st =
     (case st of (sh, c, isCommEdge) \<Rightarrow>
        bindE (updateReads addr 1 (stComp c)) (\<lambda>ev. Inr (sh, c\<lparr>stComp := ev\<rparr>, isCommEdge)))"

text \<open>The body of the byte loop of \<open>onRead\<close>, with its \<open>try\<close> block: each call into
  the shadow memory may throw, and the state reached so far goes to the \<open>catch\<close> block.\<close>

definition onRead_byte ::
  "Addr \<Rightarrow> STShadowMemory \<times> ThreadContext \<times> bool \<Rightarrow> error + STShadowMemory \<times> ThreadContext \<times> bool" where
  "onRead_byte addr st =
     (case st of (sh, c, isCommEdge) \<Rightarrow>
        (case getWriterTID sh addr of
           None \<Rightarrow> onRead_catch addr (sh, c, isCommEdge)
         | Some writer \<Rightarrow>
        (case isReaderTID sh addr (tid c) of
           None \<Rightarrow> onRead_catch addr (sh, c, isCommEdge)
         | Some isReader \<Rightarrow>
        (case (if isReader = False then updateReader sh addr 1 (tid c) else Some sh) of
           None \<Rightarrow> onRead_catch addr (sh, c, isCommEdge)
         | Some sh1 \<Rightarrow>
           if isReader = False \<and> writer \<noteq> tid c \<and> writer \<noteq> SO_UNDEF then
             (case getWriterEID sh1 addr of
                None \<Rightarrow> onRead_catch addr (sh1, c, True)
              | Some weid \<Rightarrow>
                  bindE (addEdge writer weid addr (stComm c))
                    (\<lambda>ev. Inr (sh1, c\<lparr>stComm := ev\<rparr>, True)))
           else
             bindE (updateReads addr 1 (stComp c))
               (\<lambda>ev. Inr (sh1, c\<lparr>stComp := ev\<rparr>, isCommEdge))))))"

lemma word_succ_nonzero: "(i :: Addr) < bytes \<Longrightarrow> 1 + i \<noteq> 0"
  by unat_arith

lemma unat_word_succ: "(i :: Addr) < bytes \<Longrightarrow> unat (i + 1) = Suc (unat i)"
  using unatSuc [of i] word_succ_nonzero [of i bytes] by (simp add: add.commute)

lemma onRead_loop_measure: "(i :: Addr) < bytes \<Longrightarrow> unat bytes - unat (i + 1) < unat bytes - unat i"
  by (simp add: unat_word_succ word_less_nat_alt diff_less_mono2)

function onRead_loop ::
  "Addr \<Rightarrow> Addr \<Rightarrow> Addr \<Rightarrow> STShadowMemory \<times> ThreadContext \<times> bool
     \<Rightarrow> error + STShadowMemory \<times> ThreadContext \<times> bool" where
  "onRead_loop start bytes i st =
     (if i < bytes then
        bindE (onRead_byte (start + i) st) (onRead_loop start bytes (i + 1))
      else Inr st)"
  by pat_completeness auto
termination
  by (relation "measure (\<lambda>(start, bytes, i, st). unat bytes - unat i)")
     (auto intro: onRead_loop_measure)

declare onRead_loop.simps [simp del]

definition onRead ::
  "STShadowMemory \<Rightarrow> ThreadContext \<Rightarrow> Addr \<Rightarrow> Addr \<Rightarrow> error + STShadowMemory \<times> ThreadContext" where
  "onRead sh c start bytes =
     bindE (onRead_loop start bytes 0 (sh, c, False))
       (\<lambda>st. case st of (sh1, c1, isCommEdge) \<Rightarrow>
          bindE (if isCommEdge = False then
                   bindE (commFlushIfActive c1) (\<lambda>c2. Inr (c2\<lparr>stComp := incReads (stComp c2)\<rparr>))
                 else compFlushIfActive c1)
            (\<lambda>c3. bindE (checkCompFlushLimit c3)
               (\<lambda>c4. Inr (sh1, c4\<lparr>stats := (stats c4)\<lparr>READ := READ (stats c4) + 1\<rparr>,
                                   barrierStats := barrierStats c4 @ [incMemAccesses]\<rparr>))))"

text \<open>In \<open>onWrite\<close> an \<open>std::out_of_range\<close> from the shadow memory is caught and the
  shadow memory stays as it was.\<close>

definition onWrite ::
  "STShadowMemory \<Rightarrow> ThreadContext \<Rightarrow> Addr \<Rightarrow> Addr \<Rightarrow> error + STShadowMemory \<times> ThreadContext" where
  "onWrite sh c start bytes =
     (let c1 = c\<lparr>stComp := incWrites (stComp c)\<rparr> in
      bindE (updateWrites start bytes (stComp c1))
        (\<lambda>ev. let c2 = c1\<lparr>stComp := ev\<rparr>;
                   sh1 = (case updateWriter sh start bytes (tid c2) (events c2) of
                            None \<Rightarrow> sh | Some sh' \<Rightarrow> sh')
               in bindE (checkCompFlushLimit c2)
                    (\<lambda>c3. Inr (sh1, c3\<lparr>stats := (stats c3)\<lparr>WRITE := WRITE (stats c3) + 1\<rparr>,
                                        barrierStats := barrierStats c3 @ [incMemAccesses]\<rparr>))))"

definition onSync :: "ThreadContext \<Rightarrow> 8 word \<Rightarrow> Addr \<Rightarrow> error + ThreadContext" where
  "onSync c syncType syncAddr =
     bindE (compFlushIfActive c)
       (\<lambda>c1. bindE (commFlushIfActive c1)
          (\<lambda>c2. let c3 = (if syncType = 1 then c2\<lparr>barrierStats := barrierStats c2 @ [incLocks]\<rparr>
                          else if syncType = 5 then
                            c2\<lparr>barrierStats := barrierStats c2 @ [barrier syncAddr]\<rparr>
                          else c2)
                 in Inr (c3\<lparr>logger := logger c3 @ [FlushSync syncType syncAddr (events c3) (tid c3)]\<rparr>)))"

definition onInstr :: "ThreadContext \<Rightarrow> ThreadContext" where
  "onInstr c =
     (let c1 = c\<lparr>stats := (stats c)\<lparr>INSTR := INSTR (stats c) + 1\<rparr>,
                 barrierStats := barrierStats c @ [incInstrs]\<rparr>;
          limit = (4096 :: int)
      in if (word_of_int (limit - 1) AND INSTR (stats c1)) = 0
         then c1\<lparr>logger := logger c1 @ [InstrMarker limit]\<rparr> else c1)"


subsection \<open>Dispatcher (\<open>EventHandlers\<close>)\<close>

text \<open>
  The frontend's sync codes. The enumerators are declared in a header that is not among
  the sources; \<open>SGLPRIM_SYNC_OTHER n\<close> stands for any code that is none of the
  enumerators named in \<open>EventHandlers.cpp\<close>.
\<close>

datatype SyncTypeEnum =
    SGLPRIM_SYNC_SWAP
  | SGLPRIM_SYNC_CREATE
  | SGLPRIM_SYNC_BARRIER
  | SGLPRIM_SYNC_LOCK
  | SGLPRIM_SYNC_UNLOCK
  | SGLPRIM_SYNC_JOIN
  | SGLPRIM_SYNC_CONDWAIT
  | SGLPRIM_SYNC_CONDSIG
  | SGLPRIM_SYNC_CONDBROAD
  | SGLPRIM_SYNC_SPINLOCK
  | SGLPRIM_SYNC_SPINUNLOCK
  | SGLPRIM_SYNC_OTHER nat

datatype CompCostTypeEnum = SGLPRIM_COMP_IOP | SGLPRIM_COMP_FLOP | SGLPRIM_COMP_OTHER nat

datatype MemTypeEnum = SGLPRIM_MEM_LOAD | SGLPRIM_MEM_STORE | SGLPRIM_MEM_OTHER nat

datatype CxtTypeEnum = SGLPRIM_CXT_INSTR | SGLPRIM_CXT_OTHER nat

text \<open>
  The dispatcher's members (\<open>tcxts\<close>, \<open>currentTID\<close>, \<open>cachedTCxt\<close>) together with the
  state shared by all threads (\<open>shadow\<close>, \<open>primsPerStCompEv\<close>, \<open>threadSpawns\<close>,
  \<open>newThreadsInOrder\<close>, \<open>barrierParticipants\<close>). \<open>cachedTCxt\<close> points into \<open>tcxts\<close>:
  it is the key of the element it points to, \<open>None\<close> for \<open>nullptr\<close>.
\<close>

record GenState =
  shadow :: STShadowMemory
  g_primsPerStCompEv :: "32 word"
  threadSpawns :: "(TID \<times> Addr) list"
  newThreadsInOrder :: "TID list"
  barrierParticipants :: "(Addr \<times> TID set) list"
  tcxts :: "TID \<rightharpoonup> ThreadContext"
  currentTID :: TID
  cachedTCxt :: "TID option"

text \<open>A call \<open>cachedTCxt->f()\<close> of a member function that leaves the shadow memory alone.\<close>

definition on_cached :: "(ThreadContext \<Rightarrow> error + ThreadContext) \<Rightarrow> GenState \<Rightarrow> error + GenState" where
  "on_cached f s =
     (case cachedTCxt s of
        None \<Rightarrow> Inl NullDereference
      | Some k \<Rightarrow>
          (case tcxts s k of
             None \<Rightarrow> Inl NullDereference
           | Some c \<Rightarrow> bindE (f c) (\<lambda>c'. Inr (s\<lparr>tcxts := (tcxts s)(k \<mapsto> c')\<rparr>))))"

text \<open>A call \<open>cachedTCxt->f(begin_addr, size)\<close> of \<open>onRead\<close> or \<open>onWrite\<close>.\<close>

definition on_cached_mem ::
  "(STShadowMemory \<Rightarrow> ThreadContext \<Rightarrow> error + STShadowMemory \<times> ThreadContext) \<Rightarrow> GenState \<Rightarrow> error + GenState" where
  "on_cached_mem f s =
     (case cachedTCxt s of
        None \<Rightarrow> Inl NullDereference
      | Some k \<Rightarrow>
          (case tcxts s k of
             None \<Rightarrow> Inl NullDereference
           | Some c \<Rightarrow>
               bindE (f (shadow s) c)
                 (\<lambda>r. Inr (s\<lparr>shadow := fst r, tcxts := (tcxts s)(k \<mapsto> snd r)\<rparr>))))"

definition onSwapTCxt :: "TID \<Rightarrow> GenState \<Rightarrow> error + GenState" where
  "onSwapTCxt newTID s =
     (if \<not> newTID > 0 then Inl AssertionFailed
      else
        bindE
          (if currentTID s \<noteq> newTID then
             bindE
               (if newTID \<notin> set (newThreadsInOrder s) then
                  bindE (ThreadContext_new newTID (g_primsPerStCompEv s))
                    (\<lambda>c. Inr (s\<lparr>newThreadsInOrder := newThreadsInOrder s @ [newTID],
                                 tcxts := (if tcxts s newTID = None then (tcxts s)(newTID \<mapsto> c)
                                           else tcxts s)\<rparr>))
                else Inr s)
               (\<lambda>s1. bindE
                  (if cachedTCxt s1 \<noteq> None then
                     on_cached (\<lambda>c. bindE (compFlushIfActive c) commFlushIfActive) s1
                   else Inr s1)
                  (\<lambda>s2. let s3 = s2\<lparr>currentTID := newTID\<rparr> in
                         if tcxts s3 (currentTID s3) = None then Inl AssertionFailed
                         else Inr (s3\<lparr>cachedTCxt := Some (currentTID s3)\<rparr>)))
           else Inr s)
          (\<lambda>s4. let s5 = s4\<lparr>currentTID := newTID\<rparr> in
                 if currentTID s5 = 0 then Inl AssertionFailed
                 else if cachedTCxt s5 = None then Inl AssertionFailed
                 else Inr s5))"

definition onCreate :: "Addr \<Rightarrow> GenState \<Rightarrow> GenState" where
  "onCreate data s = s\<lparr>threadSpawns := threadSpawns s @ [(currentTID s, data)]\<rparr>"

text \<open>The scan of \<open>onBarrier\<close>: the first entry for the barrier takes the thread; when
  there is none, a new entry is pushed at the back.\<close>

fun onBarrier_scan :: "Addr \<Rightarrow> TID \<Rightarrow> (Addr \<times> TID set) list \<Rightarrow> (Addr \<times> TID set) list" where
  "onBarrier_scan data t [] = [(data, {t})]"
| "onBarrier_scan data t (p # ps) =
     (if fst p = data then (fst p, insert t (snd p)) # ps
      else p # onBarrier_scan data t ps)"

definition onBarrier :: "Addr \<Rightarrow> GenState \<Rightarrow> GenState" where
  "onBarrier data s =
     s\<lparr>barrierParticipants := onBarrier_scan data (currentTID s) (barrierParticipants s)\<rparr>"

text \<open>The \<open>switch\<close> of \<open>convertAndFlush\<close>: the SynchroTrace number of a sync code,
  \<open>0\<close> from the \<open>default\<close> label.\<close>

fun stSyncType_of :: "SyncTypeEnum \<Rightarrow> 8 word" where
  "stSyncType_of SGLPRIM_SYNC_LOCK = 1"
| "stSyncType_of SGLPRIM_SYNC_UNLOCK = 2"
| "stSyncType_of SGLPRIM_SYNC_CREATE = 3"
| "stSyncType_of SGLPRIM_SYNC_JOIN = 4"
| "stSyncType_of SGLPRIM_SYNC_BARRIER = 5"
| "stSyncType_of SGLPRIM_SYNC_CONDWAIT = 6"
| "stSyncType_of SGLPRIM_SYNC_CONDSIG = 7"
| "stSyncType_of SGLPRIM_SYNC_CONDBROAD = 8"
| "stSyncType_of SGLPRIM_SYNC_SPINLOCK = 9"
| "stSyncType_of SGLPRIM_SYNC_SPINUNLOCK = 10"
| "stSyncType_of _ = 0"

definition convertAndFlush :: "SyncTypeEnum \<Rightarrow> Addr \<Rightarrow> GenState \<Rightarrow> error + GenState" where
  "convertAndFlush type data s =
     (let stSyncType = stSyncType_of type in
      if stSyncType > 0 then on_cached (\<lambda>c. onSync c stSyncType data) s
      else Inr s)"

text \<open>For a swap the sync id is the new thread id; for every other sync it is an
  address. The sync id is read as a thread id by its value.\<close>

definition onSyncEv :: "SyncTypeEnum \<Rightarrow> Addr \<Rightarrow> GenState \<Rightarrow> error + GenState" where
  "onSyncEv syncType syncID s =
     (if syncType = SGLPRIM_SYNC_SWAP then onSwapTCxt (uint syncID) s
      else
        (let s1 = (if syncType = SGLPRIM_SYNC_CREATE then onCreate syncID s
                   else if syncType = SGLPRIM_SYNC_BARRIER then onBarrier syncID s
                   else s)
         in convertAndFlush syncType syncID s1))"

definition onCompEv :: "CompCostTypeEnum \<Rightarrow> GenState \<Rightarrow> error + GenState" where
  "onCompEv type s =
     (case type of
        SGLPRIM_COMP_IOP \<Rightarrow> on_cached onIop s
      | SGLPRIM_COMP_FLOP \<Rightarrow> on_cached onFlop s
      | SGLPRIM_COMP_OTHER _ \<Rightarrow> Inr s)"

definition onMemEv :: "MemTypeEnum \<Rightarrow> Addr \<Rightarrow> Addr \<Rightarrow> GenState \<Rightarrow> error + GenState" where
  "onMemEv type begin_addr sz s =
     (case type of
        SGLPRIM_MEM_LOAD \<Rightarrow> on_cached_mem (\<lambda>sh c. onRead sh c begin_addr sz) s
      | SGLPRIM_MEM_STORE \<Rightarrow> on_cached_mem (\<lambda>sh c. onWrite sh c begin_addr sz) s
      | SGLPRIM_MEM_OTHER _ \<Rightarrow> Inr s)"

definition onCxtEv :: "CxtTypeEnum \<Rightarrow> GenState \<Rightarrow> error + GenState" where
  "onCxtEv type s =
     (if type = SGLPRIM_CXT_INSTR then on_cached (\<lambda>c. Inr (onInstr c)) s else Inr s)"

text \<open>The primitives of the frontend, and the entry point each one is delivered to.\<close>

datatype Primitive =
    Mem MemTypeEnum Addr Addr
  | Comp CompCostTypeEnum
  | Sync SyncTypeEnum Addr
  | Cxt CxtTypeEnum

fun dispatch :: "Primitive \<Rightarrow> GenState \<Rightarrow> error + GenState" where
  "dispatch (Mem type begin_addr sz) s = onMemEv type begin_addr sz s"
| "dispatch (Comp type) s = onCompEv type s"
| "dispatch (Sync type syncID) s = onSyncEv type syncID s"
| "dispatch (Cxt type) s = onCxtEv type s"

definition run :: "Primitive list \<Rightarrow> GenState \<Rightarrow> error + GenState" where
  "run prims s = foldE dispatch prims s"

text \<open>The state before the first primitive: no thread context, \<open>cachedTCxt\<close> null. The
  compression level, the shadow memory's address limit and the initial value of
  \<open>currentTID\<close> (set in a header that is not among the sources) are parameters.\<close>

definition GenState_init :: "Addr option \<Rightarrow> 32 word \<Rightarrow> TID \<Rightarrow> GenState" where
  "GenState_init lim p cur =
     \<lparr>shadow = shadow_init lim, g_primsPerStCompEv = p, threadSpawns = [],
      newThreadsInOrder = [], barrierParticipants = [], tcxts = Map.empty,
      currentTID = cur, cachedTCxt = None\<rparr>"

subsection \<open>Packed-binary encoder (\<open>CapnLogger\<close>), compute records\<close>

text \<open>
  A compute event as the encoder builds it: the four counters, the write address ranges
  and the read address ranges. \<open>orphans\<close> are the events built since the last message,
  \<open>messages\<close> the event streams written to the file so far.
\<close>

record CapnComp =
  capnIops :: StatCounter
  capnFlops :: StatCounter
  capnReads :: StatCounter
  capnWrites :: StatCounter
  writeAddrs :: "AddrRange list"
  readAddrs :: "AddrRange list"

record CapnLogger =
  orphans :: "CapnComp list"
  capnEvents :: "32 word"
  messages :: "CapnComp list list"

definition flushOrphans :: "CapnLogger \<Rightarrow> CapnLogger" where
  "flushOrphans lg =
     lg\<lparr>messages := messages lg @ [take (unat (capnEvents lg)) (orphans lg)], orphans := []\<rparr>"

text \<open>\<open>CapnLogger::flush(const STCompEvent&, EID, TID)\<close>; \<open>eventsPerMessage\<close> is a
  constant of the encoder's header and a parameter here. The event id and the thread id
  are not used.\<close>

definition CapnLogger_flush :: "32 word \<Rightarrow> CapnLogger \<Rightarrow> STCompEvent \<Rightarrow> EID \<Rightarrow> TID \<Rightarrow> CapnLogger" where
  "CapnLogger_flush eventsPerMessage lg ev eid t =
     (let writesRange = uniqueWriteAddrs ev;
          readsRange = uniqueWriteAddrs ev;
          orphan = \<lparr>capnIops = iops ev, capnFlops = flops ev, capnReads = reads ev,
                    capnWrites = writes ev, writeAddrs = writesRange, readAddrs = readsRange\<rparr>;
          lg1 = lg\<lparr>orphans := orphans lg @ [orphan], capnEvents := capnEvents lg + 1\<rparr>
      in if capnEvents lg1 = eventsPerMessage then (flushOrphans lg1)\<lparr>capnEvents := 0\<rparr>
         else lg1)"

subsection \<open>Observations and properties\<close>

text \<open>The context of thread \<open>k\<close> after a run, and the calls its logger has received.\<close>

definition thread_state :: "TID \<Rightarrow> error + GenState \<Rightarrow> ThreadContext option" where
  "thread_state k r = (case r of Inl e \<Rightarrow> None | Inr s \<Rightarrow> tcxts s k)"

definition thread_log :: "TID \<Rightarrow> error + GenState \<Rightarrow> LogCall list option" where
  "thread_log k r = map_option logger (thread_state k r)"


text \<open>
  A byte is a communication byte for thread \<open>t\<close> in the shadow memory \<open>sh\<close> when the
  shadow memory answers for it, its writer is defined and is not \<open>t\<close>, and \<open>t\<close> is not
  yet among its readers.
\<close>

definition is_comm_byte :: "STShadowMemory \<Rightarrow> TID \<Rightarrow> Addr \<Rightarrow> bool" where
  "is_comm_byte sh t a \<longleftrightarrow>
     mapped sh a \<and> writer_tid (cells sh a) \<noteq> SO_UNDEF \<and> writer_tid (cells sh a) \<noteq> t
     \<and> t \<notin> reader_set (cells sh a)"


definition at_most_one_active :: "ThreadContext \<Rightarrow> bool" where
  "at_most_one_active c \<longleftrightarrow> \<not> (isActive (stComp c) \<and> commActive (stComm c))"

text \<open>The event ids of the compute and communication records among the logger calls.\<close>

fun aggr_eids :: "LogCall list \<Rightarrow> EID list" where
  "aggr_eids [] = []"
| "aggr_eids (FlushComp ev e t # l) = e # aggr_eids l"
| "aggr_eids (FlushComm ev e t # l) = e # aggr_eids l"
| "aggr_eids (FlushSync k a e t # l) = aggr_eids l"
| "aggr_eids (InstrMarker n # l) = aggr_eids l"

definition eid_inv :: "ThreadContext \<Rightarrow> bool" where
  "eid_inv c \<longleftrightarrow> aggr_eids (logger c) = map of_nat [0..<unat (events c)]"

definition all_eid_inv :: "GenState \<Rightarrow> bool" where
  "all_eid_inv s \<longleftrightarrow> (\<forall>k c. tcxts s k = Some c \<longrightarrow> eid_inv c)"

text \<open>
  Auxiliary notions for the byte loop of \<open>onRead\<close>: two shadow memories that agree on
  the address limit, on every writer and on the readers of the addresses in \<open>A\<close>; two
  contexts that differ in their aggregators only; the shadow memory with one more reader
  of one byte; and the two outcomes of the loop body.
\<close>

definition same_view :: "STShadowMemory \<Rightarrow> STShadowMemory \<Rightarrow> Addr set \<Rightarrow> bool" where
  "same_view sh1 sh A \<longleftrightarrow>
     addr_limit sh1 = addr_limit sh
     \<and> (\<forall>a. writer_tid (cells sh1 a) = writer_tid (cells sh a)
            \<and> writer_eid (cells sh1 a) = writer_eid (cells sh a))
     \<and> (\<forall>a\<in>A. reader_set (cells sh1 a) = reader_set (cells sh a))"

definition same_frame :: "ThreadContext \<Rightarrow> ThreadContext \<Rightarrow> bool" where
  "same_frame c2 c1 \<longleftrightarrow>
     tid c2 = tid c1 \<and> primsPerStCompEv c2 = primsPerStCompEv c1 \<and> logger c2 = logger c1
     \<and> stats c2 = stats c1 \<and> events c2 = events c1 \<and> barrierStats c2 = barrierStats c1"

definition mark_reader :: "STShadowMemory \<Rightarrow> Addr \<Rightarrow> TID \<Rightarrow> STShadowMemory" where
  "mark_reader sh a t =
     sh\<lparr>cells := (cells sh)(a := (cells sh a)\<lparr>reader_set := insert t (reader_set (cells sh a))\<rparr>)\<rparr>"

definition local_byte ::
  "Addr \<Rightarrow> STShadowMemory \<Rightarrow> ThreadContext \<Rightarrow> bool \<Rightarrow> error + STShadowMemory \<times> ThreadContext \<times> bool" where
  "local_byte a sh c f =
     bindE (updateReads a 1 (stComp c)) (\<lambda>ev. Inr (sh, c\<lparr>stComp := ev\<rparr>, f))"

definition comm_byte ::
  "Addr \<Rightarrow> STShadowMemory \<Rightarrow> ThreadContext \<Rightarrow> error + STShadowMemory \<times> ThreadContext \<times> bool" where
  "comm_byte a sh c =
     bindE (addEdge (writer_tid (cells sh a)) (writer_eid (cells sh a)) a (stComm c))
       (\<lambda>ev. Inr (mark_reader sh a (tid c), c\<lparr>stComm := ev\<rparr>, True))"

text \<open>
  The address set read as a set of addresses. A range is taken by the unsigned values of
  its two ends; it is well formed below the top address when its first address is not
  above its last and its last address is not the top address \<open>2 ^ 64 - 1\<close>. One range
  lies below another when at least one address separates them, so that they neither
  overlap nor touch. A list of ranges is canonical when each range lies below all later
  ones and every range is well formed; its points are the addresses its ranges cover.
\<close>

definition lo :: "AddrRange \<Rightarrow> nat" where "lo r = unat (fst r)"

definition hi :: "AddrRange \<Rightarrow> nat" where "hi r = unat (snd r)"

definition wf_range :: "AddrRange \<Rightarrow> bool" where
  "wf_range r \<longleftrightarrow> fst r \<le> snd r \<and> snd r \<noteq> - 1"

definition below :: "AddrRange \<Rightarrow> AddrRange \<Rightarrow> bool" where
  "below x y \<longleftrightarrow> hi x + 1 < lo y"

definition canon :: "AddrRange list \<Rightarrow> bool" where
  "canon ms \<longleftrightarrow> sorted_wrt below ms \<and> (\<forall>r\<in>set ms. wf_range r)"

definition points :: "AddrRange list \<Rightarrow> Addr set" where
  "points ms = (\<Union>r\<in>set ms. {fst r..snd r})"

text \<open>Inputs of the worked examples: a shadow memory in which thread 1 has written the
  byte at \<open>0x4000\<close> during its event 0, and a new context of thread 2.\<close>

definition example_shadow :: STShadowMemory where
  "example_shadow =
     (shadow_init None)\<lparr>cells := (cells (shadow_init None))
        (0x4000 := \<lparr>writer_tid = 1, writer_eid = 0, reader_set = {}\<rparr>)\<rparr>"

definition example_context :: ThreadContext where
  "example_context = ThreadContext_init 2 100"


text \<open>The dispatcher state after a swap to thread 1.\<close>

definition example_state :: GenState where
  "example_state =
     (GenState_init None 100 0)
       \<lparr>newThreadsInOrder := [1], tcxts := [1 \<mapsto> ThreadContext_init 1 100],
        currentTID := 1, cachedTCxt := Some 1\<rparr>"

text \<open>Two more contexts of thread 2: one whose communication aggregator is active and
  holds the edge from event 0 of thread 1 for the byte at \<open>0x4000\<close>, and one whose compute
  aggregator is active with one IOP counted.\<close>

definition example_comm_active :: ThreadContext where
  "example_comm_active =
     example_context\<lparr>stComm := \<lparr>comms = [(1, 0, [(0x4000, 0x4000)])], commActive = True\<rparr>\<rparr>"

definition example_comp_active :: ThreadContext where
  "example_comp_active =
     example_context\<lparr>stComp := comp_init\<lparr>iops := 1, total_events := 1, isActive := True\<rparr>\<rparr>"

text \<open>The bytes held by the communication aggregator for the writer \<open>w\<close> and its event \<open>e\<close>,
  and the edges whose address sets are canonical.\<close>

definition edge_points :: "CommEdge list \<Rightarrow> TID \<Rightarrow> EID \<Rightarrow> Addr set" where
  "edge_points cs w e =
     (\<Union>edge\<in>set cs. if fst edge = w \<and> fst (snd edge) = e then points (snd (snd edge)) else {})"

definition edges_canon :: "CommEdge list \<Rightarrow> bool" where
  "edges_canon cs \<longleftrightarrow> (\<forall>edge\<in>set cs. canon (snd (snd edge)))"

section \<open>Auxiliary facts\<close>

lemma bindE_eq_Inr: "bindE m f = Inr y \<longleftrightarrow> (\<exists>x. m = Inr x \<and> f x = Inr y)"
  by (cases m) auto

lemma bindE_eq_Inl: "bindE m f = Inl e \<longleftrightarrow> (m = Inl e \<or> (\<exists>x. m = Inr x \<and> f x = Inl e))"
  by (cases m) auto

lemma comp_reset_inactive [simp]: "isActive (comp_reset ev) = False"
  by (simp add: comp_reset_def)

lemma comm_reset_inactive [simp]: "commActive (comm_reset ev) = False"
  by (simp add: comm_reset_def)

lemma compFlushIfActive_cases:
  "compFlushIfActive c =
     (if isActive (stComp c) then
        (if events c = - 1 then Inl EventIdOverflow
         else Inr (c\<lparr>logger := logger c @ [FlushComp (stComp c) (events c) (tid c)],
                     stComp := comp_reset (stComp c), events := events c + 1\<rparr>))
      else Inr c)"
  by (simp add: compFlushIfActive_def incr_eid_def)

lemma commFlushIfActive_cases:
  "commFlushIfActive c =
     (if commActive (stComm c) then
        (if events c = - 1 then Inl EventIdOverflow
         else Inr (c\<lparr>logger := logger c @ [FlushComm (stComm c) (events c) (tid c)],
                     stComm := comm_reset (stComm c), events := events c + 1\<rparr>))
      else Inr c)"
  by (simp add: commFlushIfActive_def incr_eid_def)

lemma checkCompFlushLimit_cases:
  "checkCompFlushLimit c =
     (if writes (stComp c) \<ge> ucast (primsPerStCompEv c) \<or> reads (stComp c) \<ge> ucast (primsPerStCompEv c)
      then compFlushIfActive c else Inr c)"
  by (auto simp: checkCompFlushLimit_def compFlushIfActive_cases comp_reset_def not_le)





lemma byte_addrs_one [simp]: "byte_addrs a 1 = [a]"
  by (simp add: byte_addrs_def)

lemma of_nat_inj_64:
  "i < unat (sz :: Addr) \<Longrightarrow> j < unat sz \<Longrightarrow> (of_nat i :: Addr) = of_nat j \<Longrightarrow> i = j"
proof -
  assume i: "i < unat sz" and j: "j < unat sz" and eq: "(of_nat i :: Addr) = of_nat j"
  have b: "unat sz < 2 ^ 64" using unsigned_less [of sz] by simp
  from eq have "take_bit 64 i = take_bit 64 j" by (simp add: word_of_nat_eq_iff)
  moreover have "take_bit 64 i = i" using i b by (simp add: take_bit_nat_eq_self)
  moreover have "take_bit 64 j = j" using j b by (simp add: take_bit_nat_eq_self)
  ultimately show "i = j" by simp
qed

lemma distinct_byte_addrs: "distinct (byte_addrs start sz)"
  unfolding byte_addrs_def
  by (auto simp: distinct_map inj_on_def dest: of_nat_inj_64)

lemma onRead_loop_foldE:
  "onRead_loop start bytes i st =
     foldE onRead_byte (map (\<lambda>j. start + of_nat j) [unat i..<unat bytes]) st"
proof (induction start bytes i st rule: onRead_loop.induct)
  case (1 start bytes i st)
  show ?case
  proof (cases "i < bytes")
    case True
    then have lt: "unat i < unat bytes" by (simp add: word_less_nat_alt)
    have up: "[unat i..<unat bytes] = unat i # [unat (i + 1)..<unat bytes]"
      using lt True by (simp add: upt_conv_Cons unat_word_succ)
    have "onRead_loop start bytes (i + 1) = foldE onRead_byte (map (\<lambda>j. start + of_nat j) [unat (i + 1)..<unat bytes])"
      using "1.IH" [OF True] by (intro ext)
    then show ?thesis
      using True by (subst onRead_loop.simps) (simp add: up)
  next
    case False
    then have "\<not> unat i < unat bytes" by (simp add: word_less_nat_alt)
    then show ?thesis using False by (subst onRead_loop.simps) simp
  qed
qed

lemma onRead_loop_byte_addrs:
  "onRead_loop start bytes 0 st = foldE onRead_byte (byte_addrs start bytes) st"
  by (simp add: onRead_loop_foldE byte_addrs_def)

lemma updateReader_one: "updateReader sh a 1 t = (if mapped sh a then Some (mark_reader sh a t) else None)"
  by (simp add: updateReader_def mark_reader_def)

lemma mapped_mark_reader [simp]: "mapped (mark_reader sh a t) b = mapped sh b"
  by (simp add: mapped_def mark_reader_def)

lemma writer_eid_mark_reader [simp]: "writer_eid (cells (mark_reader sh a t) b) = writer_eid (cells sh b)"
  by (simp add: mark_reader_def)

lemma onRead_byte_cases:
  "onRead_byte a (sh, c, f) =
     (if is_comm_byte sh (tid c) a then comm_byte a sh c
      else local_byte a (if mapped sh a \<and> tid c \<notin> reader_set (cells sh a) then mark_reader sh a (tid c) else sh) c f)"
  by (simp add: onRead_byte_def onRead_catch_def getWriterTID_def isReaderTID_def
      getWriterEID_def updateReader_one is_comm_byte_def local_byte_def comm_byte_def)

lemma same_view_comm: "same_view sh1 sh (insert a A) \<Longrightarrow> is_comm_byte sh1 t a = is_comm_byte sh t a"
  by (simp add: same_view_def is_comm_byte_def mapped_def)

lemma same_view_mark_reader:
  "same_view sh1 sh (insert a A) \<Longrightarrow> a \<notin> A \<Longrightarrow> same_view (mark_reader sh1 a t) sh A"
  by (auto simp: same_view_def mark_reader_def)

lemma same_view_mono: "same_view sh1 sh (insert a A) \<Longrightarrow> same_view sh1 sh A"
  by (simp add: same_view_def)

lemma local_byte_Inr:
  "local_byte a sh c f = Inr (sh2, c2, f2) \<Longrightarrow>
     updateReads a 1 (stComp c) = Inr (stComp c2) \<and> stComm c2 = stComm c \<and> f2 = f \<and> sh2 = sh
     \<and> same_frame c2 c"
  by (auto simp: local_byte_def bindE_eq_Inr same_frame_def)

lemma comm_byte_Inr:
  "comm_byte a sh c = Inr (sh2, c2, f2) \<Longrightarrow>
     addEdge (writer_tid (cells sh a)) (writer_eid (cells sh a)) a (stComm c) = Inr (stComm c2)
     \<and> stComp c2 = stComp c \<and> f2 \<and> sh2 = mark_reader sh a (tid c) \<and> same_frame c2 c"
  by (auto simp: comm_byte_def bindE_eq_Inr same_frame_def)

lemma onRead_byte_step:
  assumes "onRead_byte a (sh1, c1, f1) = Inr (sh2, c2, f2)"
    and sv: "same_view sh1 sh (insert a A)" and "a \<notin> A"
  shows "(if is_comm_byte sh (tid c1) a
          then addEdge (writer_tid (cells sh a)) (writer_eid (cells sh a)) a (stComm c1) = Inr (stComm c2)
               \<and> stComp c2 = stComp c1 \<and> f2
          else updateReads a 1 (stComp c1) = Inr (stComp c2) \<and> stComm c2 = stComm c1 \<and> f2 = f1)
         \<and> same_view sh2 sh A \<and> same_frame c2 c1"
proof (cases "is_comm_byte sh (tid c1) a")
  case True
  then have "is_comm_byte sh1 (tid c1) a" using sv by (simp add: same_view_comm)
  with assms(1) have "comm_byte a sh1 c1 = Inr (sh2, c2, f2)" by (simp add: onRead_byte_cases)
  from comm_byte_Inr [OF this] have
    "addEdge (writer_tid (cells sh1 a)) (writer_eid (cells sh1 a)) a (stComm c1) = Inr (stComm c2)"
    "stComp c2 = stComp c1" "f2" "sh2 = mark_reader sh1 a (tid c1)" "same_frame c2 c1"
    by simp_all
  moreover have "writer_tid (cells sh1 a) = writer_tid (cells sh a)" "writer_eid (cells sh1 a) = writer_eid (cells sh a)"
    using sv by (simp_all add: same_view_def)
  moreover have "same_view (mark_reader sh1 a (tid c1)) sh A"
    using sv assms(3) by (rule same_view_mark_reader)
  ultimately show ?thesis using True by simp
next
  case False
  then have n: "\<not> is_comm_byte sh1 (tid c1) a" using sv by (simp add: same_view_comm)
  let ?sh = "if mapped sh1 a \<and> tid c1 \<notin> reader_set (cells sh1 a) then mark_reader sh1 a (tid c1) else sh1"
  from assms(1) n have "local_byte a ?sh c1 f1 = Inr (sh2, c2, f2)" by (simp add: onRead_byte_cases)
  from local_byte_Inr [OF this] have
    "updateReads a 1 (stComp c1) = Inr (stComp c2)" "stComm c2 = stComm c1" "f2 = f1" "sh2 = ?sh" "same_frame c2 c1"
    by simp_all
  moreover have "same_view ?sh sh A"
    using sv assms(3) by (simp add: same_view_mark_reader same_view_mono)
  ultimately show ?thesis using False by simp
qed

lemma same_frame_trans: "same_frame c3 c2 \<Longrightarrow> same_frame c2 c1 \<Longrightarrow> same_frame c3 c1"
  by (simp add: same_frame_def)

lemma same_frame_refl: "same_frame c c"
  by (simp add: same_frame_def)

lemma foldE_onRead_byte:
  assumes "foldE onRead_byte as (sh1, c1, f1) = Inr (sh', c', f')"
    and "distinct as" and "same_view sh1 sh (set as)"
  shows "foldE (\<lambda>a. addEdge (writer_tid (cells sh a)) (writer_eid (cells sh a)) a)
             (filter (is_comm_byte sh (tid c1)) as) (stComm c1) = Inr (stComm c')
       \<and> foldE (\<lambda>a. updateReads a 1) (filter (\<lambda>a. \<not> is_comm_byte sh (tid c1) a) as) (stComp c1)
           = Inr (stComp c')
       \<and> f' = (f1 \<or> (\<exists>a\<in>set as. is_comm_byte sh (tid c1) a))
       \<and> same_frame c' c1"
  using assms
proof (induction as arbitrary: sh1 c1 f1)
  case Nil
  then show ?case by (simp add: same_frame_refl)
next
  case (Cons a as)
  from Cons.prems(1) obtain sh2 c2 f2 where
    b: "onRead_byte a (sh1, c1, f1) = Inr (sh2, c2, f2)"
    and r: "foldE onRead_byte as (sh2, c2, f2) = Inr (sh', c', f')"
    by (auto simp: bindE_eq_Inr)
  have d: "a \<notin> set as" "distinct as" using Cons.prems(2) by simp_all
  have sv: "same_view sh1 sh (insert a (set as))" using Cons.prems(3) by simp
  note st = onRead_byte_step [OF b sv d(1)]
  then have sv2: "same_view sh2 sh (set as)" and fr: "same_frame c2 c1" by simp_all
  then have t: "tid c2 = tid c1" by (simp add: same_frame_def)
  note ih = Cons.IH [OF r d(2) sv2, unfolded t]
  show ?case
  proof (cases "is_comm_byte sh (tid c1) a")
    case True
    with st ih fr show ?thesis by (auto intro: same_frame_trans)
  next
    case False
    with st ih fr show ?thesis by (auto intro: same_frame_trans)
  qed
qed

lemma checkCompFlushLimit_inactive:
  "isActive (stComp c) = False \<Longrightarrow> checkCompFlushLimit c = Inr c"
  by (simp add: checkCompFlushLimit_cases compFlushIfActive_cases)

lemma compFlushIfActive_Inr:
  "compFlushIfActive c = Inr c' \<Longrightarrow> isActive (stComp c') = False \<and> stComm c' = stComm c"
  by (auto simp: compFlushIfActive_cases split: if_splits)

lemma commFlushIfActive_Inr:
  "commFlushIfActive c = Inr c' \<Longrightarrow> commActive (stComm c') = False \<and> stComp c' = stComp c"
  by (auto simp: commFlushIfActive_cases split: if_splits)

lemma checkCompFlushLimit_Inr:
  "checkCompFlushLimit c = Inr c' \<Longrightarrow>
     stComm c' = stComm c \<and> (isActive (stComp c') \<longrightarrow> stComp c' = stComp c)"
  by (auto simp: checkCompFlushLimit_cases compFlushIfActive_cases split: if_splits)

lemma onIop_comm_inactive: "onIop c = Inr c' \<Longrightarrow> commActive (stComm c') = False"
  by (auto simp: onIop_def bindE_eq_Inr dest!: commFlushIfActive_Inr)

lemma onFlop_comm_inactive: "onFlop c = Inr c' \<Longrightarrow> commActive (stComm c') = False"
  by (auto simp: onFlop_def bindE_eq_Inr dest!: commFlushIfActive_Inr)

lemma onRead_elim:
  assumes "onRead sh c start bytes = Inr (sh', c')"
  obtains sh1 c1 f c3 c4 where
    "onRead_loop start bytes 0 (sh, c, False) = Inr (sh1, c1, f)"
    "f \<longrightarrow> compFlushIfActive c1 = Inr c3"
    "\<not> f \<longrightarrow> (\<exists>c2. commFlushIfActive c1 = Inr c2 \<and> c3 = c2\<lparr>stComp := incReads (stComp c2)\<rparr>)"
    "checkCompFlushLimit c3 = Inr c4"
    "sh' = sh1"
    "c' = c4\<lparr>stats := (stats c4)\<lparr>READ := READ (stats c4) + 1\<rparr>,
            barrierStats := barrierStats c4 @ [incMemAccesses]\<rparr>"
proof -
  from assms obtain st where l: "onRead_loop start bytes 0 (sh, c, False) = Inr st"
    and k: "(case st of (sh1, c1, isCommEdge) \<Rightarrow>
          bindE (if isCommEdge = False then
                   bindE (commFlushIfActive c1) (\<lambda>c2. Inr (c2\<lparr>stComp := incReads (stComp c2)\<rparr>))
                 else compFlushIfActive c1)
            (\<lambda>c3. bindE (checkCompFlushLimit c3)
               (\<lambda>c4. Inr (sh1, c4\<lparr>stats := (stats c4)\<lparr>READ := READ (stats c4) + 1\<rparr>,
                                   barrierStats := barrierStats c4 @ [incMemAccesses]\<rparr>)))) = Inr (sh', c')"
    unfolding onRead_def bindE_eq_Inr by blast
  obtain sh1 c1 f where st: "st = (sh1, c1, f)" by (cases st) auto
  from k [unfolded st] obtain c3 c4 where
    a: "(if f = False then
                   bindE (commFlushIfActive c1) (\<lambda>c2. Inr (c2\<lparr>stComp := incReads (stComp c2)\<rparr>))
                 else compFlushIfActive c1) = Inr c3"
    and b: "checkCompFlushLimit c3 = Inr c4"
    and c: "Inr (sh1, c4\<lparr>stats := (stats c4)\<lparr>READ := READ (stats c4) + 1\<rparr>,
                                   barrierStats := barrierStats c4 @ [incMemAccesses]\<rparr>) = (Inr (sh', c') :: error + STShadowMemory \<times> ThreadContext)"
    unfolding prod.case bindE_eq_Inr by blast
  show thesis
  proof (rule that [of sh1 c1 f c3 c4])
    show "onRead_loop start bytes 0 (sh, c, False) = Inr (sh1, c1, f)" using l st by simp
    show "f \<longrightarrow> compFlushIfActive c1 = Inr c3" using a by (auto split: if_splits)
    show "\<not> f \<longrightarrow> (\<exists>c2. commFlushIfActive c1 = Inr c2 \<and> c3 = c2\<lparr>stComp := incReads (stComp c2)\<rparr>)"
      using a by (auto simp: bindE_eq_Inr split: if_splits)
    show "checkCompFlushLimit c3 = Inr c4" by (rule b)
    show "sh' = sh1" using c by simp
    show "c' = c4\<lparr>stats := (stats c4)\<lparr>READ := READ (stats c4) + 1\<rparr>,
            barrierStats := barrierStats c4 @ [incMemAccesses]\<rparr>" using c by simp
  qed
qed

lemma onRead_at_most_one:
  assumes "onRead sh c start bytes = Inr (sh', c')"
  shows "at_most_one_active c'"
proof -
  from assms obtain sh1 c1 f c3 c4 where
    "onRead_loop start bytes 0 (sh, c, False) = Inr (sh1, c1, f)"
    and f1: "f \<longrightarrow> compFlushIfActive c1 = Inr c3"
    and f2: "\<not> f \<longrightarrow> (\<exists>c2. commFlushIfActive c1 = Inr c2 \<and> c3 = c2\<lparr>stComp := incReads (stComp c2)\<rparr>)"
    and lim: "checkCompFlushLimit c3 = Inr c4"
    and "sh' = sh1"
    and c': "c' = c4\<lparr>stats := (stats c4)\<lparr>READ := READ (stats c4) + 1\<rparr>,
            barrierStats := barrierStats c4 @ [incMemAccesses]\<rparr>"
    by (rule onRead_elim)
  show ?thesis
  proof (cases f)
    case True
    from f1 True have "isActive (stComp c3) = False" by (simp add: compFlushIfActive_Inr)
    then have "c4 = c3" using lim by (simp add: checkCompFlushLimit_inactive)
    then show ?thesis using c' \<open>isActive (stComp c3) = False\<close> by (simp add: at_most_one_active_def)
  next
    case False
    from f2 False obtain c2 where "commFlushIfActive c1 = Inr c2" "c3 = c2\<lparr>stComp := incReads (stComp c2)\<rparr>"
      by blast
    then have "commActive (stComm c3) = False" by (simp add: commFlushIfActive_Inr)
    then have "commActive (stComm c4) = False" using checkCompFlushLimit_Inr [OF lim] by simp
    then show ?thesis using c' by (simp add: at_most_one_active_def)
  qed
qed

lemma onSync_Inr:
  assumes "onSync c syncType syncAddr = Inr c'"
  shows "isActive (stComp c') = False \<and> commActive (stComm c') = False
         \<and> (\<exists>l. logger c' = l @ [FlushSync syncType syncAddr (events c') (tid c')])"
proof -
  from assms obtain c1 c2 where a: "compFlushIfActive c = Inr c1" and b: "commFlushIfActive c1 = Inr c2"
    and c: "c' = (if syncType = 1 then c2\<lparr>barrierStats := barrierStats c2 @ [incLocks]\<rparr>
                          else if syncType = 5 then
                            c2\<lparr>barrierStats := barrierStats c2 @ [barrier syncAddr]\<rparr>
                          else c2)\<lparr>logger := logger c2 @ [FlushSync syncType syncAddr (events c2) (tid c2)]\<rparr>"
    unfolding onSync_def bindE_eq_Inr Let_def by (auto split: if_splits)
  have "isActive (stComp c2) = False" "commActive (stComm c2) = False"
    using compFlushIfActive_Inr [OF a] commFlushIfActive_Inr [OF b] by simp_all
  then show ?thesis unfolding c by simp
qed

lemma aggr_eids_append: "aggr_eids (l @ m) = aggr_eids l @ aggr_eids m"
  by (induction l rule: aggr_eids.induct) auto

lemma unat_eid_succ: "(e :: EID) \<noteq> - 1 \<Longrightarrow> unat (e + 1) = Suc (unat e)"
proof -
  assume "e \<noteq> - 1"
  then have "e < - 1" by (simp add: word_order.not_eq_extremum)
  then show ?thesis by (rule unat_word_succ)
qed

lemma eid_inv_bump:
  "eid_inv c \<Longrightarrow> events c \<noteq> - 1 \<Longrightarrow> logger c' = logger c @ [x] \<Longrightarrow> aggr_eids [x] = [events c]
     \<Longrightarrow> events c' = events c + 1 \<Longrightarrow> eid_inv c'"
  by (simp add: eid_inv_def aggr_eids_append unat_eid_succ)

lemma eid_inv_same: "eid_inv c \<Longrightarrow> logger c' = logger c \<Longrightarrow> events c' = events c \<Longrightarrow> eid_inv c'"
  by (simp add: eid_inv_def)

lemma eid_inv_quiet:
  "eid_inv c \<Longrightarrow> logger c' = logger c @ [x] \<Longrightarrow> aggr_eids [x] = [] \<Longrightarrow> events c' = events c \<Longrightarrow> eid_inv c'"
  by (simp add: eid_inv_def aggr_eids_append)

lemma compFlushIfActive_eid_inv: "compFlushIfActive c = Inr c' \<Longrightarrow> eid_inv c \<Longrightarrow> eid_inv c'"
  by (auto simp: compFlushIfActive_cases split: if_splits
           intro: eid_inv_bump [where c = c and x = "FlushComp (stComp c) (events c) (tid c)"])

lemma commFlushIfActive_eid_inv: "commFlushIfActive c = Inr c' \<Longrightarrow> eid_inv c \<Longrightarrow> eid_inv c'"
  by (auto simp: commFlushIfActive_cases split: if_splits
           intro: eid_inv_bump [where c = c and x = "FlushComm (stComm c) (events c) (tid c)"])

lemma checkCompFlushLimit_eid_inv: "checkCompFlushLimit c = Inr c' \<Longrightarrow> eid_inv c \<Longrightarrow> eid_inv c'"
  by (auto simp: checkCompFlushLimit_cases split: if_splits dest: compFlushIfActive_eid_inv)

lemma eid_inv_update [simp]:
  "eid_inv (c\<lparr>stComp := x\<rparr>) = eid_inv c"
  "eid_inv (c\<lparr>stComm := y\<rparr>) = eid_inv c"
  "eid_inv (c\<lparr>stats := z\<rparr>) = eid_inv c"
  "eid_inv (c\<lparr>barrierStats := w\<rparr>) = eid_inv c"
  by (simp_all add: eid_inv_def)

lemma onIop_eid_inv: "onIop c = Inr c' \<Longrightarrow> eid_inv c \<Longrightarrow> eid_inv c'"
  by (auto simp: onIop_def bindE_eq_Inr dest: commFlushIfActive_eid_inv)

lemma onFlop_eid_inv: "onFlop c = Inr c' \<Longrightarrow> eid_inv c \<Longrightarrow> eid_inv c'"
  by (auto simp: onFlop_def bindE_eq_Inr dest: commFlushIfActive_eid_inv)

lemma onInstr_eid_inv: "eid_inv c \<Longrightarrow> eid_inv (onInstr c)"
  by (simp add: onInstr_def Let_def eid_inv_def aggr_eids_append)

lemma onSync_eid_inv:
  assumes "onSync c syncType syncAddr = Inr c'" and "eid_inv c"
  shows "eid_inv c'"
proof -
  from assms(1) obtain c1 c2 where a: "compFlushIfActive c = Inr c1" and b: "commFlushIfActive c1 = Inr c2"
    and c: "c' = (if syncType = 1 then c2\<lparr>barrierStats := barrierStats c2 @ [incLocks]\<rparr>
                          else if syncType = 5 then
                            c2\<lparr>barrierStats := barrierStats c2 @ [barrier syncAddr]\<rparr>
                          else c2)\<lparr>logger := logger c2 @ [FlushSync syncType syncAddr (events c2) (tid c2)]\<rparr>"
    unfolding onSync_def bindE_eq_Inr Let_def by (auto split: if_splits)
  have "eid_inv c2" using assms(2) a b by (blast dest: compFlushIfActive_eid_inv commFlushIfActive_eid_inv)
  then show ?thesis unfolding c by (simp add: eid_inv_def aggr_eids_append)
qed

lemma same_frame_eid_inv: "same_frame c' c \<Longrightarrow> eid_inv c \<Longrightarrow> eid_inv c'"
  by (simp add: same_frame_def eid_inv_def)

lemma same_view_refl: "same_view sh sh A"
  by (simp add: same_view_def)

lemma onRead_loop_same_frame:
  assumes "onRead_loop start bytes 0 (sh, c, f) = Inr (sh', c', f')"
  shows "same_frame c' c"
  using foldE_onRead_byte [OF assms [unfolded onRead_loop_byte_addrs] distinct_byte_addrs same_view_refl]
  by simp

lemma onRead_eid_inv:
  assumes "onRead sh c start bytes = Inr (sh', c')" and "eid_inv c"
  shows "eid_inv c'"
proof -
  from assms(1) obtain sh1 c1 f c3 c4 where
    l: "onRead_loop start bytes 0 (sh, c, False) = Inr (sh1, c1, f)"
    and f1: "f \<longrightarrow> compFlushIfActive c1 = Inr c3"
    and f2: "\<not> f \<longrightarrow> (\<exists>c2. commFlushIfActive c1 = Inr c2 \<and> c3 = c2\<lparr>stComp := incReads (stComp c2)\<rparr>)"
    and lim: "checkCompFlushLimit c3 = Inr c4"
    and "sh' = sh1"
    and c': "c' = c4\<lparr>stats := (stats c4)\<lparr>READ := READ (stats c4) + 1\<rparr>,
            barrierStats := barrierStats c4 @ [incMemAccesses]\<rparr>"
    by (rule onRead_elim)
  have i1: "eid_inv c1" using onRead_loop_same_frame [OF l] assms(2) by (rule same_frame_eid_inv)
  have "eid_inv c3"
  proof (cases f)
    case True
    with f1 i1 show ?thesis by (blast dest: compFlushIfActive_eid_inv)
  next
    case False
    with f2 obtain c2 where "commFlushIfActive c1 = Inr c2" "c3 = c2\<lparr>stComp := incReads (stComp c2)\<rparr>" by blast
    with i1 show ?thesis by (auto dest: commFlushIfActive_eid_inv)
  qed
  then have "eid_inv c4" using lim by (blast dest: checkCompFlushLimit_eid_inv)
  then show ?thesis unfolding c' by simp
qed

lemma onWrite_eid_inv:
  assumes "onWrite sh c start bytes = Inr (sh', c')" and "eid_inv c"
  shows "eid_inv c'"
proof -
  from assms(1) obtain ev c3 where
    "updateWrites start bytes (incWrites (stComp c)) = Inr ev"
    and lim: "checkCompFlushLimit (c\<lparr>stComp := ev\<rparr>) = Inr c3"
    and c': "c' = c3\<lparr>stats := (stats c3)\<lparr>WRITE := WRITE (stats c3) + 1\<rparr>,
                    barrierStats := barrierStats c3 @ [incMemAccesses]\<rparr>"
    unfolding onWrite_def Let_def bindE_eq_Inr by auto
  have "eid_inv (c\<lparr>stComp := ev\<rparr>)" using assms(2) by simp
  then have "eid_inv c3" using lim by (blast dest: checkCompFlushLimit_eid_inv)
  then show ?thesis unfolding c' by simp
qed

lemma on_cached_eid_inv:
  assumes "on_cached f s = Inr s'" and "all_eid_inv s"
    and "\<And>c c'. f c = Inr c' \<Longrightarrow> eid_inv c \<Longrightarrow> eid_inv c'"
  shows "all_eid_inv s'"
proof -
  from assms(1) obtain k c c' where "tcxts s k = Some c" "f c = Inr c'"
    and s': "s' = s\<lparr>tcxts := (tcxts s)(k \<mapsto> c')\<rparr>"
    by (auto simp: on_cached_def bindE_eq_Inr split: option.splits)
  then have "eid_inv c'" using assms(2,3) by (auto simp: all_eid_inv_def)
  then show ?thesis using assms(2) unfolding s' by (auto simp: all_eid_inv_def)
qed

lemma on_cached_mem_eid_inv:
  assumes "on_cached_mem f s = Inr s'" and "all_eid_inv s"
    and "\<And>sh c sh' c'. f sh c = Inr (sh', c') \<Longrightarrow> eid_inv c \<Longrightarrow> eid_inv c'"
  shows "all_eid_inv s'"
proof -
  from assms(1) obtain k c r where "tcxts s k = Some c" "f (shadow s) c = Inr r"
    and s': "s' = s\<lparr>shadow := fst r, tcxts := (tcxts s)(k \<mapsto> snd r)\<rparr>"
    by (auto simp: on_cached_mem_def bindE_eq_Inr split: option.splits)
  then have "eid_inv (snd r)" using assms(2) assms(3) [of "shadow s" c "fst r" "snd r"]
    by (auto simp: all_eid_inv_def)
  then show ?thesis using assms(2) unfolding s' by (auto simp: all_eid_inv_def)
qed

lemma ThreadContext_new_eid_inv: "ThreadContext_new t p = Inr c \<Longrightarrow> eid_inv c"
  by (auto simp: ThreadContext_new_def ThreadContext_init_def eid_inv_def split: if_splits)

lemma flush_both_eid_inv:
  "bindE (compFlushIfActive c) commFlushIfActive = Inr c' \<Longrightarrow> eid_inv c \<Longrightarrow> eid_inv c'"
  by (auto simp: bindE_eq_Inr dest: compFlushIfActive_eid_inv commFlushIfActive_eid_inv)

lemma onSwapTCxt_eid_inv:
  assumes "onSwapTCxt newTID s = Inr s'" and "all_eid_inv s"
  shows "all_eid_inv s'"
proof (cases "currentTID s = newTID")
  case True
  with assms show ?thesis by (auto simp: onSwapTCxt_def Let_def split: if_splits)
next
  case False
  define A where "A = (if newTID \<notin> set (newThreadsInOrder s) then
                  bindE (ThreadContext_new newTID (g_primsPerStCompEv s))
                    (\<lambda>c. Inr (s\<lparr>newThreadsInOrder := newThreadsInOrder s @ [newTID],
                                 tcxts := (if tcxts s newTID = None then (tcxts s)(newTID \<mapsto> c)
                                           else tcxts s)\<rparr>))
                else Inr s)"
  define B where "B = (\<lambda>s1. if cachedTCxt s1 \<noteq> None then
                     on_cached (\<lambda>c. bindE (compFlushIfActive c) commFlushIfActive) s1
                   else Inr s1)"
  have eq: "onSwapTCxt newTID s =
     (if \<not> newTID > 0 then Inl AssertionFailed
      else
        bindE
          (bindE A
               (\<lambda>s1. bindE (B s1)
                  (\<lambda>s2. let s3 = s2\<lparr>currentTID := newTID\<rparr> in
                         if tcxts s3 (currentTID s3) = None then Inl AssertionFailed
                         else Inr (s3\<lparr>cachedTCxt := Some (currentTID s3)\<rparr>))))
          (\<lambda>s4. let s5 = s4\<lparr>currentTID := newTID\<rparr> in
                 if currentTID s5 = 0 then Inl AssertionFailed
                 else if cachedTCxt s5 = None then Inl AssertionFailed
                 else Inr s5))"
    unfolding onSwapTCxt_def A_def B_def using False by simp
  from assms(1) obtain s1 s2 where a: "A = Inr s1" and b: "B s1 = Inr s2" and c: "tcxts s' = tcxts s2"
    unfolding eq by (auto simp: bindE_eq_Inr Let_def split: if_splits)
  have "all_eid_inv s1"
    using a assms(2) unfolding A_def
    by (auto simp: bindE_eq_Inr all_eid_inv_def split: if_splits dest: ThreadContext_new_eid_inv)
  then have "all_eid_inv s2"
    using b unfolding B_def
    by (auto split: if_splits intro: on_cached_eid_inv flush_both_eid_inv)
  then show ?thesis using c by (simp add: all_eid_inv_def)
qed

lemma convertAndFlush_eid_inv:
  "convertAndFlush type a s0 = Inr s1 \<Longrightarrow> all_eid_inv s0 \<Longrightarrow> all_eid_inv s1"
  by (auto simp: convertAndFlush_def Let_def split: if_splits intro: on_cached_eid_inv onSync_eid_inv)

lemma dispatch_eid_inv:
  assumes "dispatch p s = Inr s'" and "all_eid_inv s"
  shows "all_eid_inv s'"
proof (cases p)
  case (Mem type a n)
  with assms show ?thesis
    by (cases type)
      (auto simp: onMemEv_def intro: on_cached_mem_eid_inv onRead_eid_inv onWrite_eid_inv)
next
  case (Comp type)
  with assms show ?thesis
    by (cases type) (auto simp: onCompEv_def intro: on_cached_eid_inv onIop_eid_inv onFlop_eid_inv)
next
  case (Sync type a)
  have pre: "all_eid_inv (onCreate a s)" "all_eid_inv (onBarrier a s)"
    using assms(2) by (simp_all add: all_eid_inv_def onCreate_def onBarrier_def)
  from Sync assms show ?thesis
    using pre by (auto simp: onSyncEv_def Let_def split: if_splits dest: onSwapTCxt_eid_inv convertAndFlush_eid_inv)
next
  case (Cxt type)
  with assms show ?thesis
    by (auto simp: onCxtEv_def split: if_splits intro: on_cached_eid_inv onInstr_eid_inv)
qed

lemma foldE_dispatch_eid_inv:
  "foldE dispatch ps s = Inr s' \<Longrightarrow> all_eid_inv s \<Longrightarrow> all_eid_inv s'"
proof (induction ps arbitrary: s)
  case Nil
  then show ?case by simp
next
  case (Cons p ps)
  from Cons.prems(1) obtain s1 where "dispatch p s = Inr s1" "foldE dispatch ps s1 = Inr s'"
    by (auto simp: bindE_eq_Inr)
  with Cons.IH Cons.prems(2) show ?case by (blast dest: dispatch_eid_inv)
qed

lemma GenState_init_eid_inv: "all_eid_inv (GenState_init lim p cur)"
  by (simp add: all_eid_inv_def GenState_init_def)

lemma run_eid_inv:
  "run ps (GenState_init lim p cur) = Inr s \<Longrightarrow> tcxts s k = Some c \<Longrightarrow>
     aggr_eids (logger c) = map of_nat [0..<unat (events c)]"
  using foldE_dispatch_eid_inv [OF _ GenState_init_eid_inv, of ps lim p cur s]
  by (simp add: run_def all_eid_inv_def eid_inv_def)

lemma updateReads_frame:
  "updateReads a n ev = Inr R \<Longrightarrow> R = ev\<lparr>uniqueReadAddrs := uniqueReadAddrs R\<rparr>"
  by (auto simp: updateReads_def split: sum.splits)

lemma foldE_updateReads_frame:
  "foldE (\<lambda>a. updateReads a 1) as ev = Inr R \<Longrightarrow> R = ev\<lparr>uniqueReadAddrs := uniqueReadAddrs R\<rparr>"
proof (induction as arbitrary: ev)
  case Nil
  then show ?case by simp
next
  case (Cons a as)
  from Cons.prems obtain ev1 where a: "updateReads a 1 ev = Inr ev1"
    and b: "foldE (\<lambda>a. updateReads a 1) as ev1 = Inr R"
    by (auto simp: bindE_eq_Inr)
  from Cons.IH [OF b] updateReads_frame [OF a]
  have "R = ev1\<lparr>uniqueReadAddrs := uniqueReadAddrs R\<rparr>" "ev1 = ev\<lparr>uniqueReadAddrs := uniqueReadAddrs ev1\<rparr>"
    by simp_all
  then have "R = (ev\<lparr>uniqueReadAddrs := uniqueReadAddrs ev1\<rparr>)\<lparr>uniqueReadAddrs := uniqueReadAddrs R\<rparr>"
    by simp
  then show ?case by simp
qed

lemma addEdge_active: "addEdge w e a ev = Inr E \<Longrightarrow> commActive E"
  by (auto simp: addEdge_def bindE_eq_Inr split: if_splits sum.splits)

lemma foldE_addEdge_active:
  "foldE (\<lambda>a. addEdge (w a) (e a) a) as ev = Inr E \<Longrightarrow> commActive ev \<or> as \<noteq> [] \<Longrightarrow> commActive E"
proof (induction as arbitrary: ev)
  case Nil
  then show ?case by simp
next
  case (Cons a as)
  from Cons.prems(1) obtain ev1 where a: "addEdge (w a) (e a) a ev = Inr ev1"
    and b: "foldE (\<lambda>a. addEdge (w a) (e a) a) as ev1 = Inr E"
    by (auto simp: bindE_eq_Inr)
  from addEdge_active [OF a] Cons.IH [OF b] show ?case by simp
qed

lemma same_frame_eq: "same_frame c1 c \<Longrightarrow> c1 = c\<lparr>stComp := stComp c1, stComm := stComm c1\<rparr>"
  by (cases c1, cases c) (simp add: same_frame_def)

subsection \<open>The address set below the top address\<close>

lemma top_unat: "unat (- 1 :: Addr) = 2 ^ 64 - 1"
  by (simp add: unsigned_minus_1_eq_mask mask_eq_exp_minus_1)

lemma not_top_iff: "(a :: Addr) \<noteq> - 1 \<longleftrightarrow> unat a < 2 ^ 64 - 1"
proof -
  have "unat a < 2 ^ 64" using unsigned_less [of a] by simp
  moreover have "a = - 1 \<longleftrightarrow> unat a = unat (- 1 :: Addr)" by (simp only: word_unat_eq_iff)
  ultimately show ?thesis by (simp only: top_unat) arith
qed

lemma unat_succ: "unat (a :: Addr) < 2 ^ 64 - 1 \<Longrightarrow> unat (a + 1) = unat a + 1"
proof -
  assume "unat a < 2 ^ 64 - 1"
  then have "a \<noteq> - 1" by (simp only: not_top_iff)
  then have "a < - 1" by (simp add: word_order.not_eq_extremum)
  then have "1 + a \<noteq> 0" by unat_arith
  then show ?thesis using unatSuc [of a] by (simp add: add.commute)
qed

lemma wf_range_nat: "wf_range r \<longleftrightarrow> lo r \<le> hi r \<and> hi r < 2 ^ 64 - 1"
  by (simp add: wf_range_def lo_def hi_def word_le_nat_alt not_top_iff)

lemma succ_eq: "hi c < 2 ^ 64 - 1 \<Longrightarrow> (fst r = snd c + 1) \<longleftrightarrow> lo r = hi c + 1"
  by (simp add: lo_def hi_def word_unat_eq_iff unat_succ)

lemma succ_eq': "hi r < 2 ^ 64 - 1 \<Longrightarrow> (snd r + 1 = fst c) \<longleftrightarrow> hi r + 1 = lo c"
  by (simp add: lo_def hi_def word_unat_eq_iff unat_succ)

lemma succ_less: "hi c < 2 ^ 64 - 1 \<Longrightarrow> (snd c + 1 < fst r) \<longleftrightarrow> hi c + 1 < lo r"
  by (simp add: lo_def hi_def word_less_nat_alt unat_succ)

lemma fst_less: "fst r < fst c \<longleftrightarrow> lo r < lo c" "fst r \<le> fst c \<longleftrightarrow> lo r \<le> lo c"
  "snd c < fst r \<longleftrightarrow> hi c < lo r" "snd r < fst c \<longleftrightarrow> hi r < lo c"
  "snd c < snd r \<longleftrightarrow> hi c < hi r" "snd r \<le> snd c \<longleftrightarrow> hi r \<le> hi c"
  "fst r \<le> snd r \<longleftrightarrow> lo r \<le> hi r" "fst r = fst c \<longleftrightarrow> lo r = lo c"
  by (simp_all add: lo_def hi_def word_less_nat_alt word_le_nat_alt word_unat_eq_iff)

lemma range_less_nat: "range_less p q \<longleftrightarrow> lo p < lo q \<or> (lo p = lo q \<and> hi p < hi q)"
  by (simp add: range_less_def fst_less)

lemma mem_range: "x \<in> {fst r..snd r} \<longleftrightarrow> lo r \<le> unat x \<and> unat x \<le> hi r"
  by (simp add: lo_def hi_def word_le_nat_alt)

lemma lo_hi_pair [simp]: "lo (a, b) = unat a" "hi (a, b) = unat b"
  by (simp_all add: lo_def hi_def)

lemma lower_bound_before: "j < lower_bound r ms \<Longrightarrow> range_less (ms ! j) r"
proof (induction ms arbitrary: j)
  case Nil
  then show ?case by simp
next
  case (Cons x xs)
  then show ?case by (cases j) (auto split: if_splits)
qed

lemma lower_bound_at:
  "lower_bound r ms < length ms \<Longrightarrow> \<not> range_less (ms ! lower_bound r ms) r"
  by (induction ms) auto

lemma below_trans: "below x y \<Longrightarrow> wf_range y \<Longrightarrow> below y z \<Longrightarrow> below x z"
  by (simp add: below_def wf_range_nat)

lemma canon_nth_below:
  "canon ms \<Longrightarrow> j < k \<Longrightarrow> k < length ms \<Longrightarrow> below (ms ! j) (ms ! k)"
  by (simp add: canon_def sorted_wrt_iff_nth_less)

lemma canon_wf: "canon ms \<Longrightarrow> j < length ms \<Longrightarrow> wf_range (ms ! j)"
  by (simp add: canon_def)

lemma canon_append:
  "canon (xs @ ys) \<longleftrightarrow> canon xs \<and> canon ys \<and> (\<forall>x\<in>set xs. \<forall>y\<in>set ys. below x y)"
  by (auto simp: canon_def sorted_wrt_append)

lemma canon_Cons:
  "canon (x # ys) \<longleftrightarrow> wf_range x \<and> canon ys \<and> (\<forall>y\<in>set ys. below x y)"
  by (auto simp: canon_def)

lemma canon_Nil [simp]: "canon []"
  by (simp add: canon_def)

lemma points_append [simp]: "points (xs @ ys) = points xs \<union> points ys"
  by (auto simp: points_def)

lemma points_Cons [simp]: "points (x # xs) = {fst x..snd x} \<union> points xs"
  by (auto simp: points_def)

lemma points_Nil [simp]: "points [] = {}"
  by (simp add: points_def)

lemma ms_insert_split:
  "\<forall>x\<in>set xs. wf_range x \<and> below x r \<Longrightarrow> wf_range r \<Longrightarrow> \<forall>y\<in>set ys. below r y
     \<Longrightarrow> ms_insert r (xs @ ys) = xs @ r # ys"
proof (induction xs)
  case Nil
  then show ?case
    by (cases ys) (auto simp: range_less_nat below_def wf_range_nat)
next
  case (Cons x xs)
  then have "\<not> range_less r x"
    by (auto simp: range_less_nat below_def wf_range_nat)
  with Cons show ?case by simp
qed

lemma interval_union:
  "lo r' = min (lo c) (lo r) \<Longrightarrow> hi r' = max (hi c) (hi r) \<Longrightarrow> lo r \<le> hi c + 1
     \<Longrightarrow> lo c \<le> hi r + 1 \<Longrightarrow> lo r \<le> hi r \<Longrightarrow> lo c \<le> hi c
     \<Longrightarrow> {fst r'..snd r'} = {fst c..snd c} \<union> {fst r..snd r}"
  by (rule set_eqI) (simp only: mem_range Un_iff, arith)

lemma ms_erase_split:
  "i < length ms \<Longrightarrow> ms = take i ms @ ms ! i # drop (Suc i) ms"
  by (simp add: id_take_nth_drop)

lemma insert_it_nat:
  assumes "canon ms"
  shows "insert_it r ms =
     (let k = lower_bound r ms in
      if k \<noteq> 0 then
        (if k = length ms then length ms - 1
         else (if hi (ms ! (k - 1)) + 1 < lo r then k else k - 1))
      else k)"
proof -
  let ?k = "lower_bound r ms"
  have "?k \<le> length ms" by (rule lower_bound_le)
  show ?thesis
  proof (cases "?k \<noteq> 0 \<and> ?k \<noteq> length ms")
    case True
    then have "?k - 1 < length ms" using \<open>?k \<le> length ms\<close> by arith
    then have "wf_range (ms ! (?k - 1))" using assms by (rule canon_wf [rotated])
    then have "hi (ms ! (?k - 1)) < 2 ^ 64 - 1" by (simp add: wf_range_nat)
    from succ_less [OF this, of r] show ?thesis
      by (simp add: insert_it_def Let_def)
  next
    case False
    then show ?thesis by (auto simp: insert_it_def Let_def)
  qed
qed

lemma not_range_less_lo: "\<not> range_less c r \<Longrightarrow> lo r \<le> lo c"
  by (auto simp: range_less_nat)

lemma range_less_lo: "range_less c r \<Longrightarrow> lo c \<le> lo r"
  by (auto simp: range_less_nat)

lemma insert_it_above:
  assumes cn: "canon ms" and ne: "ms \<noteq> []" and wf: "wf_range r"
    and ab: "hi (ms ! insert_it r ms) + 1 < lo r"
  shows "\<forall>x\<in>set ms. below x r"
proof -
  let ?k = "lower_bound r ms" and ?i = "insert_it r ms"
  have kl: "?k \<le> length ms" by (rule lower_bound_le)
  have il: "?i < length ms" using ne by (rule insert_it_less)
  have wfc: "wf_range (ms ! ?i)" using cn il by (rule canon_wf)
  have notk: "?i \<noteq> ?k"
  proof
    assume e: "?i = ?k"
    then have "\<not> range_less (ms ! ?i) r" using lower_bound_at [of r ms] il by simp
    then have "lo r \<le> lo (ms ! ?i)" by (rule not_range_less_lo)
    with wfc ab show False by (simp add: wf_range_nat)
  qed
  have last: "?i = length ms - 1"
    using notk ab insert_it_nat [OF cn, of r] by (auto simp: Let_def split: if_splits)
  show ?thesis
  proof
    fix x assume "x \<in> set ms"
    then obtain j where j: "j < length ms" "x = ms ! j" by (auto simp: in_set_conv_nth)
    show "below x r"
    proof (cases "j = ?i")
      case True
      with j ab show ?thesis by (simp add: below_def)
    next
      case False
      with j last have "j < ?i" by arith
      then have "below (ms ! j) (ms ! ?i)" using cn il by (simp add: canon_nth_below)
      with wfc ab j show ?thesis by (simp add: below_def wf_range_nat)
    qed
  qed
qed

lemma insert_it_before:
  assumes cn: "canon ms" and ne: "ms \<noteq> []" and wf: "wf_range r"
    and lt: "lo r < lo (ms ! insert_it r ms)"
  shows "\<forall>x\<in>set (take (insert_it r ms) ms). below x r"
proof -
  let ?k = "lower_bound r ms" and ?i = "insert_it r ms"
  have kl: "?k \<le> length ms" by (rule lower_bound_le)
  have il: "?i < length ms" using ne by (rule insert_it_less)
  have notbefore: "\<not> ?i < ?k"
  proof
    assume "?i < ?k"
    then have "range_less (ms ! ?i) r" by (rule lower_bound_before)
    then have "lo (ms ! ?i) \<le> lo r" by (rule range_less_lo)
    with lt show False by simp
  qed
  have ik: "?i = ?k" and pr: "?k \<noteq> 0 \<longrightarrow> hi (ms ! (?k - 1)) + 1 < lo r"
    using notbefore kl il insert_it_nat [OF cn, of r] by (auto simp: Let_def split: if_splits)
  show ?thesis
  proof
    fix x assume "x \<in> set (take ?i ms)"
    then obtain j where j: "j < ?i" "x = ms ! j" using il by (auto simp: in_set_conv_nth)
    then have k0: "?k \<noteq> 0" using ik by simp
    have pl: "?k - 1 < length ms" using il ik by simp
    have wfp: "wf_range (ms ! (?k - 1))" using cn pl by (rule canon_wf)
    show "below x r"
    proof (cases "j = ?k - 1")
      case True
      with j pr k0 show ?thesis by (simp add: below_def)
    next
      case False
      with j ik have "j < ?k - 1" by arith
      then have "below (ms ! j) (ms ! (?k - 1))" using cn pl by (simp add: canon_nth_below)
      with wfp pr k0 j show ?thesis by (simp add: below_def wf_range_nat)
    qed
  qed
qed

lemma AddrSet_insert_correct:
  "canon ms \<Longrightarrow> wf_range rng \<Longrightarrow>
     \<exists>ms'. AddrSet_insert rng ms = Inr ms' \<and> canon ms'
        \<and> points ms' = points ms \<union> {fst rng..snd rng}"
proof (induction "length ms" arbitrary: rng ms rule: less_induct)
  case less
  note cn = \<open>canon ms\<close> and wf = \<open>wf_range rng\<close>
  have w0: "fst rng \<le> snd rng" using wf by (simp add: wf_range_def)
  have top: "hi rng < 2 ^ 64 - 1" and lh: "lo rng \<le> hi rng"
    using wf by (simp_all add: wf_range_nat)
  show ?case
  proof (cases "ms = []")
    case True
    then show ?thesis
      using wf w0 by (simp add: AddrSet_insert.simps canon_Cons)
  next
    case ne: False
    define i where "i = insert_it rng ms"
    define cur where "cur = ms ! i"
    define xs where "xs = take i ms"
    define ys where "ys = drop (Suc i) ms"
    have il: "i < length ms" unfolding i_def using ne by (rule insert_it_less)
    have ms: "ms = xs @ cur # ys"
      unfolding xs_def ys_def cur_def using il by (rule ms_erase_split)
    have er: "ms_erase i ms = xs @ ys" by (simp add: ms_erase_def xs_def ys_def)
    have "length ms = length (xs @ cur # ys)" using ms by simp
    then have len: "length (xs @ ys) < length ms" by simp
    have wfc: "wf_range cur" unfolding cur_def using cn il by (rule canon_wf)
    then have topc: "hi cur < 2 ^ 64 - 1" and lhc: "lo cur \<le> hi cur"
      by (simp_all add: wf_range_nat)
    have csp: "canon (xs @ cur # ys)" using cn ms by simp
    then have cxs: "canon xs" and cys: "canon ys"
      and xc: "\<forall>x\<in>set xs. below x cur" and cy: "\<forall>y\<in>set ys. below cur y"
      and xy: "\<forall>x\<in>set xs. \<forall>y\<in>set ys. below x y"
      by (simp_all add: canon_append canon_Cons)
    then have cxy: "canon (xs @ ys)" by (simp add: canon_append)
    have wxs: "\<forall>x\<in>set xs. wf_range x" using cxs by (simp add: canon_def)
    have "points ms = points (xs @ cur # ys)" using ms by simp
    then have pts: "points ms = points xs \<union> {fst cur..snd cur} \<union> points ys"
      by auto
    note IH = less.hyps [OF len cxy]
    have eq: "AddrSet_insert rng ms =
       (if lo rng = hi cur + 1 then AddrSet_insert (fst cur, snd rng) (xs @ ys)
        else if hi rng + 1 = lo cur then AddrSet_insert (fst rng, snd cur) (xs @ ys)
        else if hi cur < lo rng then Inr (ms_insert rng ms)
        else if lo cur \<le> lo rng then
          (if hi cur < hi rng then AddrSet_insert (fst cur, snd rng) (xs @ ys) else Inr ms)
        else
          (if hi rng < lo cur then Inr (ms_insert rng ms)
           else if hi rng \<le> hi cur then Inr (ms_insert (fst rng, snd cur) (xs @ ys))
           else AddrSet_insert rng (xs @ ys)))"
      by (subst AddrSet_insert.simps)
         (simp add: Let_def lh ne i_def [symmetric] cur_def [symmetric] er
            succ_eq [OF topc] succ_eq' [OF top] fst_less)
    consider
        (touch_above) "lo rng = hi cur + 1"
      | (touch_below) "lo rng \<noteq> hi cur + 1" "hi rng + 1 = lo cur"
      | (above) "hi cur + 1 < lo rng"
      | (extend) "lo cur \<le> lo rng" "lo rng \<le> hi cur" "hi cur < hi rng"
      | (inside) "lo cur \<le> lo rng" "hi rng \<le> hi cur"
      | (before) "hi rng + 1 < lo cur"
      | (extend_down) "lo rng < lo cur" "lo cur \<le> hi rng" "hi rng \<le> hi cur"
      | (cover) "lo rng < lo cur" "hi cur < hi rng"
      by arith
    then show ?thesis
    proof cases
      case touch_above
      have wf': "wf_range (fst cur, snd rng)"
        using touch_above lhc lh top by (simp add: wf_range_nat lo_def hi_def)
      have u: "{fst (fst cur, snd rng)..snd (fst cur, snd rng)} = {fst cur..snd cur} \<union> {fst rng..snd rng}"
        by (rule interval_union) (use touch_above lhc lh in \<open>simp_all add: lo_def hi_def\<close>)
      from IH [OF wf'] obtain ms' where
        "AddrSet_insert (fst cur, snd rng) (xs @ ys) = Inr ms'" "canon ms'"
        "points ms' = points (xs @ ys) \<union> {fst (fst cur, snd rng)..snd (fst cur, snd rng)}"
        by blast
      then show ?thesis using touch_above eq pts u lh lhc by auto
    next
      case touch_below
      have wf': "wf_range (fst rng, snd cur)"
        using touch_below lhc lh topc by (simp add: wf_range_nat lo_def hi_def)
      have u: "{fst (fst rng, snd cur)..snd (fst rng, snd cur)} = {fst cur..snd cur} \<union> {fst rng..snd rng}"
        by (rule interval_union) (use touch_below lhc lh in \<open>simp_all add: lo_def hi_def\<close>)
      from IH [OF wf'] obtain ms' where
        "AddrSet_insert (fst rng, snd cur) (xs @ ys) = Inr ms'" "canon ms'"
        "points ms' = points (xs @ ys) \<union> {fst (fst rng, snd cur)..snd (fst rng, snd cur)}"
        by blast
      then show ?thesis using touch_below eq pts u lh lhc by auto
    next
      case above
      have all: "\<forall>x\<in>set ms. below x rng"
        using cn ne wf above unfolding cur_def i_def by (rule insert_it_above)
      have "ms_insert rng (ms @ []) = ms @ rng # []"
        by (rule ms_insert_split) (use all cn wf in \<open>auto simp: canon_def\<close>)
      then have mi: "ms_insert rng ms = ms @ [rng]" by simp
      have "canon (ms @ [rng])" using cn wf all by (simp add: canon_append canon_Cons)
      moreover have "AddrSet_insert rng ms = Inr (ms @ [rng])"
        using eq above lh lhc mi by simp
      ultimately show ?thesis by auto
    next
      case extend
      have wf': "wf_range (fst cur, snd rng)"
        using extend lhc lh top by (simp add: wf_range_nat lo_def hi_def)
      have u: "{fst (fst cur, snd rng)..snd (fst cur, snd rng)} = {fst cur..snd cur} \<union> {fst rng..snd rng}"
        by (rule interval_union) (use extend lhc lh in \<open>simp_all add: lo_def hi_def\<close>)
      from IH [OF wf'] obtain ms' where
        "AddrSet_insert (fst cur, snd rng) (xs @ ys) = Inr ms'" "canon ms'"
        "points ms' = points (xs @ ys) \<union> {fst (fst cur, snd rng)..snd (fst cur, snd rng)}"
        by blast
      then show ?thesis using extend eq pts u lh lhc by auto
    next
      case inside
      have "{fst rng..snd rng} \<subseteq> {fst cur..snd cur}"
      proof (rule subsetI)
        fix x assume "x \<in> {fst rng..snd rng}"
        then show "x \<in> {fst cur..snd cur}" using inside unfolding mem_range by arith
      qed
      then have "points ms = points ms \<union> {fst rng..snd rng}" unfolding pts by blast
      moreover have "AddrSet_insert rng ms = Inr ms" using eq inside lh lhc by simp
      ultimately show ?thesis using cn by auto
    next
      case before
      have bx: "\<forall>x\<in>set xs. below x rng"
        using insert_it_before [OF cn ne wf] before lh unfolding cur_def i_def xs_def by simp
      have rc: "below rng cur" using before by (simp add: below_def)
      have ry: "\<forall>y\<in>set ys. below rng y"
      proof
        fix y assume "y \<in> set ys"
        with cy have "below cur y" by blast
        with rc lhc show "below rng y" by (simp add: below_def)
      qed
      have by': "\<forall>y\<in>set (cur # ys). below rng y" using rc ry by simp
      have "ms_insert rng (xs @ cur # ys) = xs @ rng # cur # ys"
        by (rule ms_insert_split) (use bx wxs wf by' in auto)
      then have mi: "ms_insert rng ms = xs @ rng # cur # ys" using ms by simp
      have "canon (rng # cur # ys)"
        using cys wf wfc rc ry cy by (simp add: canon_Cons)
      moreover have "\<forall>x\<in>set xs. \<forall>y\<in>set (rng # cur # ys). below x y"
        using bx xc xy by simp
      ultimately have "canon (xs @ rng # cur # ys)"
        using cxs by (simp only: canon_append)
      moreover have "AddrSet_insert rng ms = Inr (xs @ rng # cur # ys)"
        using eq before lh lhc mi by simp
      moreover have "points (xs @ rng # cur # ys) = points ms \<union> {fst rng..snd rng}"
        unfolding pts points_append points_Cons by blast
      ultimately show ?thesis by blast
    next
      case extend_down
      let ?n = "(fst rng, snd cur)"
      have wf': "wf_range ?n"
        using extend_down lhc lh topc by (simp add: wf_range_nat lo_def hi_def)
      have u: "{fst ?n..snd ?n} = {fst cur..snd cur} \<union> {fst rng..snd rng}"
        by (rule interval_union) (use extend_down lhc lh in \<open>simp_all add: lo_def hi_def\<close>)
      have bx0: "\<forall>x\<in>set xs. below x rng"
        using insert_it_before [OF cn ne wf] extend_down unfolding cur_def i_def xs_def by simp
      then have bx: "\<forall>x\<in>set xs. below x ?n" by (simp add: below_def lo_def)
      have by': "\<forall>y\<in>set ys. below ?n y" using cy by (simp add: below_def hi_def)
      have mi: "ms_insert ?n (xs @ ys) = xs @ ?n # ys"
        by (rule ms_insert_split) (use bx wxs wf' by' in auto)
      have "canon (?n # ys)" using cys wf' by' by (simp add: canon_Cons)
      moreover have "\<forall>x\<in>set xs. \<forall>y\<in>set (?n # ys). below x y"
        using bx xy by simp
      ultimately have "canon (xs @ ?n # ys)"
        using cxs by (simp only: canon_append)
      moreover have "AddrSet_insert rng ms = Inr (xs @ ?n # ys)"
        using eq extend_down lh lhc mi by simp
      moreover have "points (xs @ ?n # ys) = points ms \<union> {fst rng..snd rng}"
        unfolding pts points_append points_Cons u by blast
      ultimately show ?thesis by blast
    next
      case cover
      have "{fst cur..snd cur} \<subseteq> {fst rng..snd rng}"
      proof (rule subsetI)
        fix x assume "x \<in> {fst cur..snd cur}"
        then show "x \<in> {fst rng..snd rng}" using cover unfolding mem_range by arith
      qed
      then have u: "points (xs @ ys) \<union> {fst rng..snd rng} = points ms \<union> {fst rng..snd rng}"
        unfolding pts points_append by blast
      from IH [OF wf] obtain ms' where
        "AddrSet_insert rng (xs @ ys) = Inr ms'" "canon ms'"
        "points ms' = points (xs @ ys) \<union> {fst rng..snd rng}"
        by blast
      then show ?thesis using cover eq u lh lhc by auto
    qed
  qed
qed

lemma le_lo: "fst r \<le> x \<longleftrightarrow> lo r \<le> unat x"
  by (simp add: lo_def word_le_nat_alt)

lemma le_hi: "x \<le> snd r \<longleftrightarrow> unat x \<le> hi r"
  by (simp add: hi_def word_le_nat_alt)

lemma mem_points: "p \<in> points ms \<longleftrightarrow> (\<exists>r\<in>set ms. lo r \<le> unat p \<and> unat p \<le> hi r)"
  by (simp add: points_def le_lo le_hi)

lemma canon_points_above:
  assumes "canon (x # r)" and "p \<in> points r"
  shows "hi x + 1 < unat p"
proof -
  from assms(2) obtain y where y: "y \<in> set r" "lo y \<le> unat p" by (auto simp: mem_points)
  with assms(1) have "below x y" by (simp add: canon_Cons)
  with y show ?thesis by (simp add: below_def)
qed

lemma canon_head_least:
  assumes "canon (x # r)" and "p \<in> points (x # r)"
  shows "lo x \<le> unat p"
proof (cases "p \<in> points r")
  case True
  from canon_points_above [OF assms(1) this] assms(1) show ?thesis
    by (simp add: canon_Cons wf_range_nat)
next
  case False
  with assms(2) show ?thesis by (simp add: le_lo le_hi)
qed

lemma canon_head_in: "canon (x # r) \<Longrightarrow> fst x \<in> points (x # r)"
  by (simp add: canon_Cons wf_range_def)

lemma head_in_tail:
  "fst x \<in> points (y # s) \<longleftrightarrow> (lo y \<le> lo x \<and> lo x \<le> hi y) \<or> fst x \<in> points s"
  by (simp add: le_lo le_hi lo_def)

lemma canon_lo_eq:
  assumes "canon (x # r)" and "canon (y # s)" and "points (x # r) = points (y # s)"
  shows "lo x = lo y"
proof -
  have "fst x \<in> points (y # s)" using canon_head_in [OF assms(1)] by (simp only: assms(3))
  from canon_head_least [OF assms(2) this] have a: "lo y \<le> lo x" by (simp add: lo_def)
  have "fst y \<in> points (x # r)" using canon_head_in [OF assms(2)] by (simp only: assms(3))
  from canon_head_least [OF assms(1) this] have "lo x \<le> lo y" by (simp add: lo_def)
  with a show ?thesis by simp
qed

lemma canon_hi_le:
  assumes cx: "canon (x # r)" and cy: "canon (y # s)"
    and pts: "points (x # r) = points (y # s)" and l: "lo x = lo y"
  shows "hi y \<le> hi x"
proof (rule ccontr)
  assume "\<not> hi y \<le> hi x"
  then have lt: "hi x < hi y" by simp
  have hx: "hi x < 2 ^ 64 - 1" and lx: "lo x \<le> hi x"
    using cx by (simp_all add: canon_Cons wf_range_nat)
  let ?p = "snd x + 1"
  have up: "unat ?p = hi x + 1" using hx by (simp add: hi_def unat_succ)
  have "?p \<in> {fst y..snd y}" using up lt l lx by (simp add: le_lo le_hi)
  then have "?p \<in> points (y # s)" by simp
  then have "?p \<in> points (x # r)" by (simp only: pts)
  then have "?p \<in> {fst x..snd x} \<or> ?p \<in> points r" by simp
  then show False
  proof
    assume "?p \<in> {fst x..snd x}"
    then show False using up by (simp add: le_lo le_hi)
  next
    assume "?p \<in> points r"
    from canon_points_above [OF cx this] up show False by simp
  qed
qed

lemma canon_tail_points:
  assumes "canon (x # r)"
  shows "points r = points (x # r) - {fst x..snd x}"
proof -
  have "\<And>p. p \<in> points r \<Longrightarrow> p \<notin> {fst x..snd x}"
  proof
    fix p assume "p \<in> points r" and "p \<in> {fst x..snd x}"
    with canon_points_above [OF assms, of p] show False by (simp add: le_lo le_hi)
  qed
  then show ?thesis by auto
qed

lemma canon_unique:
  "canon ms \<Longrightarrow> canon ms' \<Longrightarrow> points ms = points ms' \<Longrightarrow> ms = ms'"
proof (induction ms arbitrary: ms')
  case Nil
  show ?case
  proof (cases ms')
    case Nil
    then show ?thesis by simp
  next
    case (Cons y s)
    with Nil.prems(2) have "canon (y # s)" by simp
    then have "fst y \<in> points (y # s)" by (rule canon_head_in)
    with Nil.prems(3) Cons show ?thesis by simp
  qed
next
  case (Cons x r)
  show ?case
  proof (cases ms')
    case Nil
    from Cons.prems(1) have "fst x \<in> points (x # r)" by (rule canon_head_in)
    with Cons.prems(3) Nil show ?thesis by simp
  next
    case (Cons y s)
    note cx = Cons.prems(1) and cy = Cons.prems(2) [unfolded Cons] and pts = Cons.prems(3) [unfolded Cons]
    have l: "lo x = lo y" using cx cy pts by (rule canon_lo_eq)
    have "hi y \<le> hi x" using cx cy pts l by (rule canon_hi_le)
    moreover have "hi x \<le> hi y" using cy cx pts [symmetric] l [symmetric] by (rule canon_hi_le)
    ultimately have h: "hi x = hi y" by simp
    from l h have xy: "x = y" by (cases x, cases y) (simp add: word_unat_eq_iff)
    have "points r = points s"
      using canon_tail_points [OF cx] canon_tail_points [OF cy] pts xy by simp
    moreover have "canon r" "canon s" using cx cy by (simp_all add: canon_Cons)
    ultimately have "r = s" using Cons.IH by blast
    with xy Cons show ?thesis by simp
  qed
qed

lemma foldE_AddrSet_insert:
  "canon ms \<Longrightarrow> \<forall>r\<in>set rs. wf_range r \<Longrightarrow>
     \<exists>ms'. foldE AddrSet_insert rs ms = Inr ms' \<and> canon ms'
        \<and> points ms' = points ms \<union> points rs"
proof (induction rs arbitrary: ms)
  case Nil
  then show ?case by simp
next
  case (Cons r rs)
  from Cons.prems have "wf_range r" by simp
  from AddrSet_insert_correct [OF Cons.prems(1) this] obtain m1 where
    a: "AddrSet_insert r ms = Inr m1" and c: "canon m1"
    and p: "points m1 = points ms \<union> {fst r..snd r}" by blast
  from Cons.prems(2) have "\<forall>r\<in>set rs. wf_range r" by simp
  from Cons.IH [OF c this] obtain m2 where
    "foldE AddrSet_insert rs m1 = Inr m2" "canon m2" "points m2 = points m1 \<union> points rs"
    by blast
  with a p show ?case by auto
qed

text \<open>
  Away from the top address \<open>AddrSet::insert\<close> is correct: any sequence of insertions
  of ranges that are well formed below the top address returns, stores a canonical list
  (no two stored ranges overlap or touch) that covers exactly the union of the inserted
  ranges, and that list is the same for every such sequence with the same union.
\<close>

theorem AddrSet_insert_below_top:
  assumes "\<forall>r\<in>set rs. wf_range r"
  shows "\<exists>ms. foldE AddrSet_insert rs [] = Inr ms \<and> canon ms \<and> points ms = points rs
           \<and> (\<forall>rs'. (\<forall>r\<in>set rs'. wf_range r) \<and> points rs' = points rs
                  \<longrightarrow> foldE AddrSet_insert rs' [] = Inr ms)"
proof -
  from foldE_AddrSet_insert [OF canon_Nil assms] obtain ms where
    a: "foldE AddrSet_insert rs [] = Inr ms" and c: "canon ms" and p: "points ms = points rs"
    by auto
  have "foldE AddrSet_insert rs' [] = Inr ms"
    if w: "\<forall>r\<in>set rs'. wf_range r" and q: "points rs' = points rs" for rs'
  proof -
    from foldE_AddrSet_insert [OF canon_Nil w] obtain ms' where
      a': "foldE AddrSet_insert rs' [] = Inr ms'" and c': "canon ms'" and p': "points ms' = points rs'"
      by auto
    have "ms' = ms" using c' c p p' q by (intro canon_unique) simp_all
    with a' show ?thesis by simp
  qed
  with a c p show ?thesis by blast
qed

lemma AddrSet_insert_below_top_example:
  "foldE AddrSet_insert [(3, 5), (1, 2), (9, 12), (4, 8)] [] = Inr [(1, 12)]
   \<and> foldE AddrSet_insert [(9, 12), (4, 8), (3, 5), (1, 2)] [] = Inr [(1, 12)]
   \<and> foldE AddrSet_insert [(1, 2), (20, 30), (4, 8), (10, 10)] []
       = Inr [(1, 2), (4, 8), (10, 10), (20, 30)]"
  by code_simp

subsection \<open>What the flushes of a primitive emit\<close>

lemma onIop_flushes:
  assumes "onIop c = Inr c1"
  shows "commActive (stComm c1) = False \<and> at_most_one_active c1
     \<and> logger c1 = logger c @ (if commActive (stComm c)
                                then [FlushComm (stComm c) (events c) (tid c)] else [])
     \<and> events c1 = (if commActive (stComm c) then events c + 1 else events c)
     \<and> (commActive (stComm c) \<longrightarrow> comms (stComm c1) = [])
     \<and> isActive (stComp c1) = True \<and> iops (stComp c1) = iops (stComp c) + 1"
  using assms
  by (auto simp: onIop_def bindE_eq_Inr commFlushIfActive_cases at_most_one_active_def
      comm_reset_def incIOP_def split: if_splits)

lemma onFlop_flushes:
  assumes "onFlop c = Inr c1"
  shows "commActive (stComm c1) = False \<and> at_most_one_active c1
     \<and> logger c1 = logger c @ (if commActive (stComm c)
                                then [FlushComm (stComm c) (events c) (tid c)] else [])
     \<and> events c1 = (if commActive (stComm c) then events c + 1 else events c)
     \<and> (commActive (stComm c) \<longrightarrow> comms (stComm c1) = [])
     \<and> isActive (stComp c1) = True \<and> flops (stComp c1) = flops (stComp c) + 1"
  using assms
  by (auto simp: onFlop_def bindE_eq_Inr commFlushIfActive_cases at_most_one_active_def
      comm_reset_def incFLOP_def split: if_splits)

lemma onSync_flushes:
  assumes "onSync c syncType syncAddr = Inr c4"
  shows "isActive (stComp c4) = False \<and> commActive (stComm c4) = False
     \<and> logger c4 = logger c
          @ (if isActive (stComp c) then [FlushComp (stComp c) (events c) (tid c)] else [])
          @ (if commActive (stComm c)
             then [FlushComm (stComm c)
                     (if isActive (stComp c) then events c + 1 else events c) (tid c)]
             else [])
          @ [FlushSync syncType syncAddr (events c4) (tid c)]
     \<and> events c4 = (if isActive (stComp c) then events c + 1 else events c)
                    + (if commActive (stComm c) then 1 else 0)
     \<and> (isActive (stComp c) \<longrightarrow> stComp c4 = comp_init)
     \<and> (commActive (stComm c) \<longrightarrow> comms (stComm c4) = [])"
proof -
  from assms obtain c1 c2 where a: "compFlushIfActive c = Inr c1" and b: "commFlushIfActive c1 = Inr c2"
    and c: "c4 = (if syncType = 1 then c2\<lparr>barrierStats := barrierStats c2 @ [incLocks]\<rparr>
                          else if syncType = 5 then
                            c2\<lparr>barrierStats := barrierStats c2 @ [barrier syncAddr]\<rparr>
                          else c2)\<lparr>logger := logger c2 @ [FlushSync syncType syncAddr (events c2) (tid c2)]\<rparr>"
    unfolding onSync_def bindE_eq_Inr Let_def by (auto split: if_splits)
  have c1: "c1 = (if isActive (stComp c) then
                    c\<lparr>logger := logger c @ [FlushComp (stComp c) (events c) (tid c)],
                      stComp := comp_reset (stComp c), events := events c + 1\<rparr>
                  else c)"
    using a by (auto simp: compFlushIfActive_cases split: if_splits)
  have c2: "c2 = (if commActive (stComm c1) then
                    c1\<lparr>logger := logger c1 @ [FlushComm (stComm c1) (events c1) (tid c1)],
                       stComm := comm_reset (stComm c1), events := events c1 + 1\<rparr>
                  else c1)"
    using b by (auto simp: commFlushIfActive_cases split: if_splits)
  show ?thesis
    unfolding c c2 c1 by (simp add: comp_reset_def comm_reset_def comp_init_def AddrSet_clear_def)
qed

lemma onRead_loop_frame:
  assumes l: "onRead_loop start bytes 0 (sh, c, False) = Inr (sh1, c1, f)"
  shows "logger c1 = logger c \<and> events c1 = events c \<and> tid c1 = tid c
     \<and> primsPerStCompEv c1 = primsPerStCompEv c
     \<and> isActive (stComp c1) = isActive (stComp c)
     \<and> reads (stComp c1) = reads (stComp c) \<and> writes (stComp c1) = writes (stComp c)
     \<and> (\<not> f \<longrightarrow> stComm c1 = stComm c)"
proof -
  note fl = foldE_onRead_byte [OF l [unfolded onRead_loop_byte_addrs] distinct_byte_addrs same_view_refl]
  have fr: "same_frame c1 c" using fl by simp
  have R: "foldE (\<lambda>a. updateReads a 1)
        (filter (\<lambda>a. \<not> is_comm_byte sh (tid c) a) (byte_addrs start bytes)) (stComp c) = Inr (stComp c1)"
    using fl by simp
  have Rf: "stComp c1 = (stComp c)\<lparr>uniqueReadAddrs := uniqueReadAddrs (stComp c1)\<rparr>"
    by (rule foldE_updateReads_frame [OF R])
  have a: "isActive (stComp c1) = isActive (stComp c)" "reads (stComp c1) = reads (stComp c)"
    "writes (stComp c1) = writes (stComp c)"
    by (subst Rf, simp)+
  have "stComm c1 = stComm c" if "\<not> f"
  proof -
    from that fl have "filter (is_comm_byte sh (tid c)) (byte_addrs start bytes) = []"
      by (simp add: filter_empty_conv)
    with fl show ?thesis by simp
  qed
  with fr a show ?thesis by (simp add: same_frame_def)
qed

lemma onRead_flushes:
  assumes rd: "onRead sh c start bytes = Inr (sh', c3)"
  shows "at_most_one_active c3
     \<and> (\<exists>sh1 c1 f. onRead_loop start bytes 0 (sh, c, False) = Inr (sh1, c1, f) \<and> sh' = sh1
          \<and> (if f then
                isActive (stComp c3) = False \<and> stComm c3 = stComm c1
                \<and> logger c3 = logger c @ (if isActive (stComp c)
                             then [FlushComp (stComp c1) (events c) (tid c)] else [])
                \<and> events c3 = (if isActive (stComp c) then events c + 1 else events c)
                \<and> (isActive (stComp c) \<longrightarrow> stComp c3 = comp_init)
              else
                commActive (stComm c3) = False
                \<and> logger c3 = logger c
                     @ (if commActive (stComm c)
                        then [FlushComm (stComm c) (events c) (tid c)] else [])
                     @ (if ucast (primsPerStCompEv c) \<le> writes (stComp c)
                           \<or> ucast (primsPerStCompEv c) \<le> reads (stComp c) + 1
                        then [FlushComp (incReads (stComp c1))
                                (if commActive (stComm c) then events c + 1 else events c)
                                (tid c)]
                        else [])
                \<and> events c3 = (if commActive (stComm c) then events c + 1 else events c)
                     + (if ucast (primsPerStCompEv c) \<le> writes (stComp c)
                           \<or> ucast (primsPerStCompEv c) \<le> reads (stComp c) + 1
                        then 1 else 0)
                \<and> (commActive (stComm c) \<longrightarrow> comms (stComm c3) = [])))"
proof -
  from rd obtain sh1 c1 f c3' c4 where
    l: "onRead_loop start bytes 0 (sh, c, False) = Inr (sh1, c1, f)"
    and f1: "f \<longrightarrow> compFlushIfActive c1 = Inr c3'"
    and f2: "\<not> f \<longrightarrow> (\<exists>c2. commFlushIfActive c1 = Inr c2 \<and> c3' = c2\<lparr>stComp := incReads (stComp c2)\<rparr>)"
    and lim: "checkCompFlushLimit c3' = Inr c4"
    and sh: "sh' = sh1"
    and c3: "c3 = c4\<lparr>stats := (stats c4)\<lparr>READ := READ (stats c4) + 1\<rparr>,
            barrierStats := barrierStats c4 @ [incMemAccesses]\<rparr>"
    by (rule onRead_elim)
  note fr = onRead_loop_frame [OF l]
  have amo: "at_most_one_active c3" using rd by (rule onRead_at_most_one)
  have "if f then
                isActive (stComp c3) = False \<and> stComm c3 = stComm c1
                \<and> logger c3 = logger c @ (if isActive (stComp c)
                             then [FlushComp (stComp c1) (events c) (tid c)] else [])
                \<and> events c3 = (if isActive (stComp c) then events c + 1 else events c)
                \<and> (isActive (stComp c) \<longrightarrow> stComp c3 = comp_init)
              else
                commActive (stComm c3) = False
                \<and> logger c3 = logger c
                     @ (if commActive (stComm c)
                        then [FlushComm (stComm c) (events c) (tid c)] else [])
                     @ (if ucast (primsPerStCompEv c) \<le> writes (stComp c)
                           \<or> ucast (primsPerStCompEv c) \<le> reads (stComp c) + 1
                        then [FlushComp (incReads (stComp c1))
                                (if commActive (stComm c) then events c + 1 else events c)
                                (tid c)]
                        else [])
                \<and> events c3 = (if commActive (stComm c) then events c + 1 else events c)
                     + (if ucast (primsPerStCompEv c) \<le> writes (stComp c)
                           \<or> ucast (primsPerStCompEv c) \<le> reads (stComp c) + 1
                        then 1 else 0)
                \<and> (commActive (stComm c) \<longrightarrow> comms (stComm c3) = [])"
  proof (cases f)
    case True
    with f1 have a: "compFlushIfActive c1 = Inr c3'" by simp
    then have "isActive (stComp c3') = False" by (simp add: compFlushIfActive_Inr)
    then have c4: "c4 = c3'" using lim by (simp add: checkCompFlushLimit_inactive)
    have c3': "c3' = (if isActive (stComp c1) then
                    c1\<lparr>logger := logger c1 @ [FlushComp (stComp c1) (events c1) (tid c1)],
                       stComp := comp_reset (stComp c1), events := events c1 + 1\<rparr>
                  else c1)"
      using a by (auto simp: compFlushIfActive_cases split: if_splits)
    show ?thesis
      using True fr unfolding c3 c4 c3'
      by (simp add: comp_reset_def comp_init_def AddrSet_clear_def)
  next
    case False
    with f2 obtain c2 where b: "commFlushIfActive c1 = Inr c2"
      and c3': "c3' = c2\<lparr>stComp := incReads (stComp c2)\<rparr>" by blast
    have c2: "c2 = (if commActive (stComm c1) then
                    c1\<lparr>logger := logger c1 @ [FlushComm (stComm c1) (events c1) (tid c1)],
                       stComm := comm_reset (stComm c1), events := events c1 + 1\<rparr>
                  else c1)"
      using b by (auto simp: commFlushIfActive_cases split: if_splits)
    have act: "isActive (stComp c3') = True" by (simp add: c3' incReads_def)
    have c4: "c4 = (if ucast (primsPerStCompEv c3') \<le> writes (stComp c3')
                       \<or> ucast (primsPerStCompEv c3') \<le> reads (stComp c3')
                    then c3'\<lparr>logger := logger c3' @ [FlushComp (stComp c3') (events c3') (tid c3')],
                       stComp := comp_reset (stComp c3'), events := events c3' + 1\<rparr>
                    else c3')"
      using lim act
      by (auto simp: checkCompFlushLimit_cases compFlushIfActive_cases split: if_splits)
    show ?thesis
      using False fr unfolding c3 c4 c3' c2
      by (simp add: comm_reset_def incReads_def)
  qed
  with l sh amo show ?thesis by blast
qed

subsection \<open>The byte loop of a load below the top address\<close>

lemma wf_range_single: "a \<noteq> - 1 \<Longrightarrow> wf_range (a, a)"
  by (simp add: wf_range_def)

lemma AddrSet_insert_single:
  assumes "canon ms" and "a \<noteq> - 1"
  shows "\<exists>ms'. AddrSet_insert (a, a) ms = Inr ms' \<and> canon ms' \<and> points ms' = insert a (points ms)"
  using AddrSet_insert_correct [OF assms(1) wf_range_single [OF assms(2)]] by auto

lemma updateReads_below_top:
  assumes "canon (uniqueReadAddrs ev)" and "a \<noteq> - 1"
  shows "\<exists>ev'. updateReads a 1 ev = Inr ev' \<and> canon (uniqueReadAddrs ev')
           \<and> points (uniqueReadAddrs ev') = insert a (points (uniqueReadAddrs ev))"
proof -
  from AddrSet_insert_single [OF assms] obtain ms' where
    "AddrSet_insert (a, a) (uniqueReadAddrs ev) = Inr ms'" "canon ms'"
    "points ms' = insert a (points (uniqueReadAddrs ev))" by blast
  then show ?thesis by (simp add: updateReads_def)
qed

lemma foldE_updateReads_points:
  "canon (uniqueReadAddrs ev) \<Longrightarrow> \<forall>a\<in>set as. a \<noteq> - 1 \<Longrightarrow>
     \<exists>R. foldE (\<lambda>a. updateReads a 1) as ev = Inr R \<and> canon (uniqueReadAddrs R)
        \<and> points (uniqueReadAddrs R) = points (uniqueReadAddrs ev) \<union> set as"
proof (induction as arbitrary: ev)
  case Nil
  then show ?case by simp
next
  case (Cons a as)
  from Cons.prems have "a \<noteq> - 1" by simp
  from updateReads_below_top [OF Cons.prems(1) this] obtain ev1 where
    a: "updateReads a 1 ev = Inr ev1" and c: "canon (uniqueReadAddrs ev1)"
    and p: "points (uniqueReadAddrs ev1) = insert a (points (uniqueReadAddrs ev))" by blast
  from Cons.prems(2) have "\<forall>a\<in>set as. a \<noteq> - 1" by simp
  from Cons.IH [OF c this] obtain R where
    "foldE (\<lambda>a. updateReads a 1) as ev1 = Inr R" "canon (uniqueReadAddrs R)"
    "points (uniqueReadAddrs R) = points (uniqueReadAddrs ev1) \<union> set as" by blast
  with a p show ?case by auto
qed

lemma edge_points_Cons:
  "edge_points (edge # cs) w e =
     (if fst edge = w \<and> fst (snd edge) = e then points (snd (snd edge)) else {})
     \<union> edge_points cs w e"
  by (simp add: edge_points_def)

lemma edge_points_Nil [simp]: "edge_points [] w e = {}"
  by (simp add: edge_points_def)

lemma edges_canon_Cons: "edges_canon (edge # cs) \<longleftrightarrow> canon (snd (snd edge)) \<and> edges_canon cs"
  by (simp add: edges_canon_def)

lemma AddrSet_single_points:
  "a \<noteq> - 1 \<Longrightarrow> canon (AddrSet_single (a, a)) \<and> points (AddrSet_single (a, a)) = {a}"
  by (simp add: AddrSet_single_def canon_Cons wf_range_single)

lemma addEdge_loop_below_top:
  "edges_canon cs \<Longrightarrow> a \<noteq> - 1 \<Longrightarrow>
     \<exists>cs'. addEdge_loop w e a cs = Inr cs' \<and> edges_canon cs'
        \<and> (\<forall>w' e'. edge_points cs' w' e'
              = edge_points cs w' e' \<union> (if w' = w \<and> e' = e then {a} else {}))"
proof (induction cs)
  case Nil
  then show ?case
    using AddrSet_single_points [of a]
    by (simp add: edge_points_Cons edges_canon_Cons edges_canon_def)
next
  case (Cons edge cs)
  have ce: "canon (snd (snd edge))" and cc: "edges_canon cs"
    using Cons.prems(1) by (simp_all add: edges_canon_Cons)
  show ?case
  proof (cases "fst edge = w \<and> fst (snd edge) = e")
    case True
    from AddrSet_insert_single [OF ce Cons.prems(2)] obtain ms' where
      i: "AddrSet_insert (a, a) (snd (snd edge)) = Inr ms'" and c: "canon ms'"
      and p: "points ms' = insert a (points (snd (snd edge)))" by blast
    have "addEdge_loop w e a (edge # cs) = Inr ((fst edge, fst (snd edge), ms') # cs)"
      using True i by simp
    moreover have "edges_canon ((fst edge, fst (snd edge), ms') # cs)"
      using c cc by (simp add: edges_canon_Cons)
    moreover have "\<forall>w' e'. edge_points ((fst edge, fst (snd edge), ms') # cs) w' e'
              = edge_points (edge # cs) w' e' \<union> (if w' = w \<and> e' = e then {a} else {})"
      using True p by (auto simp: edge_points_Cons)
    ultimately show ?thesis by blast
  next
    case False
    from Cons.IH [OF cc Cons.prems(2)] obtain cs' where
      l: "addEdge_loop w e a cs = Inr cs'" and c: "edges_canon cs'"
      and p: "\<forall>w' e'. edge_points cs' w' e'
              = edge_points cs w' e' \<union> (if w' = w \<and> e' = e then {a} else {})" by blast
    have "addEdge_loop w e a (edge # cs) = Inr (edge # cs')"
      using False l by auto
    moreover have "edges_canon (edge # cs')" using ce c by (simp add: edges_canon_Cons)
    moreover have "\<forall>w' e'. edge_points (edge # cs') w' e'
              = edge_points (edge # cs) w' e' \<union> (if w' = w \<and> e' = e then {a} else {})"
      using p by (auto simp: edge_points_Cons)
    ultimately show ?thesis by blast
  qed
qed

lemma addEdge_below_top:
  assumes "edges_canon (comms ev)" and "a \<noteq> - 1"
  shows "\<exists>ev'. addEdge w e a ev = Inr ev' \<and> edges_canon (comms ev') \<and> commActive ev'
        \<and> (\<forall>w' e'. edge_points (comms ev') w' e'
              = edge_points (comms ev) w' e' \<union> (if w' = w \<and> e' = e then {a} else {}))"
proof (cases "comms ev = []")
  case True
  then show ?thesis
    using AddrSet_single_points [OF assms(2)]
    by (simp add: addEdge_def edge_points_Cons edges_canon_Cons edges_canon_def)
next
  case False
  from addEdge_loop_below_top [OF assms, of w e] obtain cs' where
    "addEdge_loop w e a (comms ev) = Inr cs'" "edges_canon cs'"
    "\<forall>w' e'. edge_points cs' w' e'
              = edge_points (comms ev) w' e' \<union> (if w' = w \<and> e' = e then {a} else {})" by blast
  then show ?thesis using False by (simp add: addEdge_def)
qed

lemma foldE_addEdge_points:
  "edges_canon (comms ev) \<Longrightarrow> \<forall>a\<in>set as. a \<noteq> - 1 \<Longrightarrow>
     \<exists>E. foldE (\<lambda>a. addEdge (wt a) (et a) a) as ev = Inr E \<and> edges_canon (comms E)
        \<and> (as \<noteq> [] \<longrightarrow> commActive E)
        \<and> (\<forall>w e. edge_points (comms E) w e
              = edge_points (comms ev) w e \<union> {a \<in> set as. wt a = w \<and> et a = e})"
proof (induction as arbitrary: ev)
  case Nil
  then show ?case by simp
next
  case (Cons a as)
  from Cons.prems have na: "a \<noteq> - 1" by simp
  from addEdge_below_top [OF Cons.prems(1) na, of "wt a" "et a"] obtain ev1 where
    a: "addEdge (wt a) (et a) a ev = Inr ev1" and c: "edges_canon (comms ev1)"
    and act: "commActive ev1"
    and p: "\<forall>w' e'. edge_points (comms ev1) w' e'
              = edge_points (comms ev) w' e' \<union> (if w' = wt a \<and> e' = et a then {a} else {})"
    by blast
  from Cons.prems(2) have "\<forall>a\<in>set as. a \<noteq> - 1" by simp
  from Cons.IH [OF c this] obtain E where
    f: "foldE (\<lambda>a. addEdge (wt a) (et a) a) as ev1 = Inr E" and cE: "edges_canon (comms E)"
    and q: "\<forall>w e. edge_points (comms E) w e
              = edge_points (comms ev1) w e \<union> {a \<in> set as. wt a = w \<and> et a = e}" by blast
  have actE: "commActive E" using foldE_addEdge_active [OF f] act by simp
  have "\<forall>w e. edge_points (comms E) w e
              = edge_points (comms ev) w e \<union> {x \<in> set (a # as). wt x = w \<and> et x = e}"
    using p q by auto
  with a f cE actE show ?case by auto
qed

lemma foldE_onRead_byte_returns:
  assumes "distinct as" and "same_view sh1 sh (set as)"
    and "foldE (\<lambda>a. addEdge (writer_tid (cells sh a)) (writer_eid (cells sh a)) a)
           (filter (is_comm_byte sh (tid c1)) as) (stComm c1) = Inr E"
    and "foldE (\<lambda>a. updateReads a 1)
           (filter (\<lambda>a. \<not> is_comm_byte sh (tid c1) a) as) (stComp c1) = Inr R"
  shows "\<exists>sh' c' f'. foldE onRead_byte as (sh1, c1, f1) = Inr (sh', c', f')"
  using assms
proof (induction as arbitrary: sh1 c1 f1)
  case Nil
  then show ?case by simp
next
  case (Cons a as)
  have d: "a \<notin> set as" "distinct as" using Cons.prems(1) by simp_all
  have sv: "same_view sh1 sh (insert a (set as))" using Cons.prems(2) by simp
  have w: "writer_tid (cells sh1 a) = writer_tid (cells sh a)"
    "writer_eid (cells sh1 a) = writer_eid (cells sh a)"
    using sv by (simp_all add: same_view_def)
  show ?case
  proof (cases "is_comm_byte sh (tid c1) a")
    case True
    then have t1: "is_comm_byte sh1 (tid c1) a" using sv by (simp add: same_view_comm)
    from Cons.prems(3) True obtain E1 where
      e1: "addEdge (writer_tid (cells sh a)) (writer_eid (cells sh a)) a (stComm c1) = Inr E1"
      and e2: "foldE (\<lambda>a. addEdge (writer_tid (cells sh a)) (writer_eid (cells sh a)) a)
           (filter (is_comm_byte sh (tid c1)) as) E1 = Inr E"
      by (auto simp: bindE_eq_Inr)
    let ?sh2 = "mark_reader sh1 a (tid c1)" and ?c2 = "c1\<lparr>stComm := E1\<rparr>"
    have step: "onRead_byte a (sh1, c1, f1) = Inr (?sh2, ?c2, True)"
      using t1 e1 w by (simp add: onRead_byte_cases comm_byte_def)
    have sv2: "same_view ?sh2 sh (set as)" using sv d(1) by (rule same_view_mark_reader)
    have "\<exists>sh' c' f'. foldE onRead_byte as (?sh2, ?c2, True) = Inr (sh', c', f')"
      by (rule Cons.IH [OF d(2) sv2]) (use e2 Cons.prems(4) True in simp_all)
    then show ?thesis using step by simp
  next
    case False
    then have t1: "\<not> is_comm_byte sh1 (tid c1) a" using sv by (simp add: same_view_comm)
    from Cons.prems(4) False obtain R1 where
      r1: "updateReads a 1 (stComp c1) = Inr R1"
      and r2: "foldE (\<lambda>a. updateReads a 1)
           (filter (\<lambda>a. \<not> is_comm_byte sh (tid c1) a) as) R1 = Inr R"
      by (auto simp: bindE_eq_Inr)
    let ?sh2 = "if mapped sh1 a \<and> tid c1 \<notin> reader_set (cells sh1 a)
                then mark_reader sh1 a (tid c1) else sh1"
    let ?c2 = "c1\<lparr>stComp := R1\<rparr>"
    have step: "onRead_byte a (sh1, c1, f1) = Inr (?sh2, ?c2, f1)"
      using t1 r1 by (simp add: onRead_byte_cases local_byte_def)
    have sv2: "same_view ?sh2 sh (set as)"
      using sv d(1) by (simp add: same_view_mark_reader same_view_mono)
    have "\<exists>sh' c' f'. foldE onRead_byte as (?sh2, ?c2, f1) = Inr (sh', c', f')"
      by (rule Cons.IH [OF d(2) sv2]) (use r2 Cons.prems(3) False in simp_all)
    then show ?thesis using step by simp
  qed
qed

text \<open>
  A load none of whose bytes is the top address, on aggregators whose address sets are
  canonical, returns from the byte loop: the communication aggregator then holds, for
  every writer and event, the bytes it held before and the bytes of the load whose shadow
  writer is defined, is not the thread itself and whose reader set did not hold the
  thread, under the writer and the event the shadow memory records for them; the
  read-range set of the compute aggregator covers what it covered before and every other
  byte of the load; the flag tells whether there was a communication byte.
\<close>

theorem onRead_loop_below_top:
  assumes top: "\<forall>a\<in>set (byte_addrs start bytes). a \<noteq> - 1"
    and cr: "canon (uniqueReadAddrs (stComp c))"
    and ce: "edges_canon (comms (stComm c))"
  shows "\<exists>sh' c' isCommEdge.
      onRead_loop start bytes 0 (sh, c, False) = Inr (sh', c', isCommEdge)
    \<and> isCommEdge = (\<exists>a\<in>set (byte_addrs start bytes). is_comm_byte sh (tid c) a)
    \<and> (\<forall>w e. edge_points (comms (stComm c')) w e
          = edge_points (comms (stComm c)) w e
            \<union> {a \<in> set (byte_addrs start bytes).
                 is_comm_byte sh (tid c) a
                 \<and> writer_tid (cells sh a) = w \<and> writer_eid (cells sh a) = e})
    \<and> points (uniqueReadAddrs (stComp c'))
        = points (uniqueReadAddrs (stComp c))
          \<union> {a \<in> set (byte_addrs start bytes). \<not> is_comm_byte sh (tid c) a}
    \<and> (isCommEdge \<longrightarrow> commActive (stComm c'))
    \<and> canon (uniqueReadAddrs (stComp c')) \<and> edges_canon (comms (stComm c'))"
proof -
  let ?as = "byte_addrs start bytes"
  let ?cm = "filter (is_comm_byte sh (tid c)) ?as"
  let ?lc = "filter (\<lambda>a. \<not> is_comm_byte sh (tid c) a) ?as"
  have "\<forall>a\<in>set ?cm. a \<noteq> - 1" using top by simp
  from foldE_addEdge_points [OF ce this,
      of "\<lambda>a. writer_tid (cells sh a)" "\<lambda>a. writer_eid (cells sh a)"]
  obtain E where E: "foldE (\<lambda>a. addEdge (writer_tid (cells sh a)) (writer_eid (cells sh a)) a)
        ?cm (stComm c) = Inr E" and cE: "edges_canon (comms E)"
    and aE: "?cm \<noteq> [] \<longrightarrow> commActive E"
    and pE: "\<forall>w e. edge_points (comms E) w e
              = edge_points (comms (stComm c)) w e
                \<union> {a \<in> set ?cm. writer_tid (cells sh a) = w \<and> writer_eid (cells sh a) = e}"
    by blast
  have "\<forall>a\<in>set ?lc. a \<noteq> - 1" using top by simp
  from foldE_updateReads_points [OF cr this]
  obtain R where R: "foldE (\<lambda>a. updateReads a 1) ?lc (stComp c) = Inr R"
    and cR: "canon (uniqueReadAddrs R)"
    and pR: "points (uniqueReadAddrs R) = points (uniqueReadAddrs (stComp c)) \<union> set ?lc"
    by blast
  from foldE_onRead_byte_returns [OF distinct_byte_addrs same_view_refl E R, of False]
  obtain sh' c' f where l: "foldE onRead_byte ?as (sh, c, False) = Inr (sh', c', f)" by blast
  note fl = foldE_onRead_byte [OF l distinct_byte_addrs same_view_refl]
  have sE: "stComm c' = E" and sR: "stComp c' = R"
    and f: "f = (\<exists>a\<in>set ?as. is_comm_byte sh (tid c) a)"
    using fl E R by simp_all
  have ne: "f \<longrightarrow> ?cm \<noteq> []" using f by (auto simp: filter_empty_conv)
  have e1: "\<forall>w e. edge_points (comms (stComm c')) w e
          = edge_points (comms (stComm c)) w e
            \<union> {a \<in> set ?as. is_comm_byte sh (tid c) a
                 \<and> writer_tid (cells sh a) = w \<and> writer_eid (cells sh a) = e}"
    using pE sE by auto
  have r1: "points (uniqueReadAddrs (stComp c'))
        = points (uniqueReadAddrs (stComp c)) \<union> {a \<in> set ?as. \<not> is_comm_byte sh (tid c) a}"
    using pR sR by auto
  have "onRead_loop start bytes 0 (sh, c, False) = Inr (sh', c', f)"
    using l by (simp add: onRead_loop_byte_addrs)
  with f e1 r1 ne aE cE cR sE sR show ?thesis by blast
qed

lemma onRead_loop_below_top_example:
  "map_sum id (\<lambda>(sh, c, f). (comms (stComm c), uniqueReadAddrs (stComp c), f))
      (onRead_loop 0x4000 2 0 (example_shadow, example_context, False))
   = Inr ([(1, 0, [(0x4000, 0x4000)])], [(0x4001, 0x4001)], True)"
  by code_simp

section \<open>The claims\<close>

text \<open>
  C1. The claim asks that every byte of every load that is no communication byte is
  recorded as a one-byte read range in the compute aggregator. Below the top address that
  is what the byte loop of \<open>onRead\<close> does (\<open>onRead_loop_below_top\<close>). A local byte at the
  top address is handed to \<open>AddrSet::insert\<close> as the range
  \<open>(0xFFFFFFFFFFFFFFFF, 0xFFFFFFFFFFFFFFFF)\<close>, whose comparison
  \<open>range.second + 1 == it->first\<close> wraps around: after a load of the byte at \<open>0\<close>, the load
  of the byte at the top address builds the range \<open>(0xFFFFFFFFFFFFFFFF, 0)\<close> and inserts
  it, which the assertion \<open>range.first <= range.second\<close> rejects, so the byte is not
  recorded. The same happens within one load of two bytes that starts at the top address
  (\<open>it->second + 1\<close> wraps for its second byte, the byte at \<open>0\<close>). None of these bytes is a
  communication byte: no thread has written them.
\<close>

theorem onRead_local_byte_at_top:
  "is_comm_byte (shadow_init None) 1 0xFFFFFFFFFFFFFFFF = False
   \<and> is_comm_byte (shadow_init None) 1 0 = False
   \<and> map_sum id (\<lambda>(sh, c). uniqueReadAddrs (stComp c))
        (onRead (shadow_init None) (ThreadContext_init 1 100) 0 1) = Inr [(0, 0)]
   \<and> bindE (onRead (shadow_init None) (ThreadContext_init 1 100) 0 1)
        (\<lambda>(sh, c). onRead sh c 0xFFFFFFFFFFFFFFFF 1) = Inl AssertionFailed
   \<and> map_sum id currentTID
        (run [Sync SGLPRIM_SYNC_SWAP 1, Mem SGLPRIM_MEM_LOAD 0 1,
              Mem SGLPRIM_MEM_LOAD 0xFFFFFFFFFFFFFFFF 1] (GenState_init None 100 0))
       = Inl AssertionFailed
   \<and> byte_addrs 0xFFFFFFFFFFFFFFFF 2 = [0xFFFFFFFFFFFFFFFF, 0]
   \<and> onRead (shadow_init None) (ThreadContext_init 1 100) 0xFFFFFFFFFFFFFFFF 2
       = Inl AssertionFailed"
  by code_simp

text \<open>
  C2. The claim asks that any sequence of insertions of well-formed ranges yields the
  canonical set of intervals of their union. That holds as long as no range ends at the
  top address (\<open>AddrSet_insert_below_top\<close>). The comparisons
  \<open>range.first == it->second + 1\<close> and \<open>range.second + 1 == it->first\<close> wrap around
  at the top address: inserting \<open>(0, 5)\<close> and then \<open>(10, 0xFFFFFFFFFFFFFFFF)\<close> takes
  \<open>0xFFFFFFFFFFFFFFFF + 1 = 0\<close> for the start of the stored range, builds the range
  \<open>(10, 5)\<close> and inserts it, which the function's own assertion
  \<open>range.first <= range.second\<close> rejects.
\<close>

theorem AddrSet_insert_wraps_at_top:
  "foldE AddrSet_insert [(0, 5), (10, 0xFFFFFFFFFFFFFFFF)] [] = Inl AssertionFailed"
  by code_simp

text \<open>
  C3, as stated, fails. After a load that reads a byte written by another thread, a store
  leaves both aggregators active (\<open>onWrite\<close> does not flush the communication aggregator);
  and a sync record is emitted, by design, when neither aggregator is active.
\<close>

theorem one_active_counterexample:
  "map_option (\<lambda>c. (isActive (stComp c), commActive (stComm c)))
     (thread_state 2
        (run [Sync SGLPRIM_SYNC_SWAP 1, Mem SGLPRIM_MEM_STORE 0x4000 1,
              Sync SGLPRIM_SYNC_SWAP 2, Mem SGLPRIM_MEM_LOAD 0x4000 1,
              Mem SGLPRIM_MEM_STORE 0x3000 1]
           (GenState_init None 100 0)))
     = Some (True, True)
   \<and> isActive (stComp example_context) = False
   \<and> commActive (stComm example_context) = False
   \<and> map_sum id logger (onSync example_context 2 0xA) = Inr [FlushSync 2 0xA 0 2]"
  by code_simp

text \<open>
  C3, amended. After an IOP, a FLOP, a load or a sync, at most one of the two aggregators
  is active. IOP, FLOP and a load without communication byte flush the communication
  aggregator before the compute aggregator is activated; a load with a communication
  byte flushes the compute aggregator; a sync flushes the compute aggregator, then the
  communication aggregator, and emits the sync record with neither aggregator active. A
  flush of an active aggregator appends one record to the thread's log, the aggregator as
  it is at that moment with the current event id, bumps the event id by one and resets
  the aggregator; a flush of an inactive aggregator emits nothing and changes nothing.
  The log and the event id after each of these primitives are given in full.
\<close>

theorem aggregators_after_primitive:
  "(onIop c = Inr c1 \<longrightarrow>
      commActive (stComm c1) = False \<and> at_most_one_active c1
      \<and> logger c1 = logger c @ (if commActive (stComm c)
                                 then [FlushComm (stComm c) (events c) (tid c)] else [])
      \<and> events c1 = (if commActive (stComm c) then events c + 1 else events c)
      \<and> (commActive (stComm c) \<longrightarrow> comms (stComm c1) = [])
      \<and> isActive (stComp c1) = True \<and> iops (stComp c1) = iops (stComp c) + 1)
   \<and> (onFlop c = Inr c2 \<longrightarrow>
      commActive (stComm c2) = False \<and> at_most_one_active c2
      \<and> logger c2 = logger c @ (if commActive (stComm c)
                                 then [FlushComm (stComm c) (events c) (tid c)] else [])
      \<and> events c2 = (if commActive (stComm c) then events c + 1 else events c)
      \<and> (commActive (stComm c) \<longrightarrow> comms (stComm c2) = [])
      \<and> isActive (stComp c2) = True \<and> flops (stComp c2) = flops (stComp c) + 1)
   \<and> (onRead sh c start bytes = Inr (sh', c3) \<longrightarrow>
      at_most_one_active c3
      \<and> (\<exists>sh1 l f. onRead_loop start bytes 0 (sh, c, False) = Inr (sh1, l, f) \<and> sh' = sh1
           \<and> (if f then
                 isActive (stComp c3) = False \<and> stComm c3 = stComm l
                 \<and> logger c3 = logger c @ (if isActive (stComp c)
                              then [FlushComp (stComp l) (events c) (tid c)] else [])
                 \<and> events c3 = (if isActive (stComp c) then events c + 1 else events c)
                 \<and> (isActive (stComp c) \<longrightarrow> stComp c3 = comp_init)
               else
                 commActive (stComm c3) = False
                 \<and> logger c3 = logger c
                      @ (if commActive (stComm c)
                         then [FlushComm (stComm c) (events c) (tid c)] else [])
                      @ (if ucast (primsPerStCompEv c) \<le> writes (stComp c)
                            \<or> ucast (primsPerStCompEv c) \<le> reads (stComp c) + 1
                         then [FlushComp (incReads (stComp l))
                                 (if commActive (stComm c) then events c + 1 else events c)
                                 (tid c)]
                         else [])
                 \<and> events c3 = (if commActive (stComm c) then events c + 1 else events c)
                      + (if ucast (primsPerStCompEv c) \<le> writes (stComp c)
                            \<or> ucast (primsPerStCompEv c) \<le> reads (stComp c) + 1
                         then 1 else 0)
                 \<and> (commActive (stComm c) \<longrightarrow> comms (stComm c3) = []))))
   \<and> (onSync c syncType syncAddr = Inr c4 \<longrightarrow>
      isActive (stComp c4) = False \<and> commActive (stComm c4) = False
      \<and> logger c4 = logger c
           @ (if isActive (stComp c) then [FlushComp (stComp c) (events c) (tid c)] else [])
           @ (if commActive (stComm c)
              then [FlushComm (stComm c)
                      (if isActive (stComp c) then events c + 1 else events c) (tid c)]
              else [])
           @ [FlushSync syncType syncAddr (events c4) (tid c)]
      \<and> events c4 = (if isActive (stComp c) then events c + 1 else events c)
                     + (if commActive (stComm c) then 1 else 0)
      \<and> (isActive (stComp c) \<longrightarrow> stComp c4 = comp_init)
      \<and> (commActive (stComm c) \<longrightarrow> comms (stComm c4) = []))
   \<and> (isActive (stComp c) = False \<longrightarrow> compFlushIfActive c = Inr c)
   \<and> (commActive (stComm c) = False \<longrightarrow> commFlushIfActive c = Inr c)"
  using onIop_flushes [of c c1] onFlop_flushes [of c c2]
    onRead_flushes [of sh c start bytes sh' c3] onSync_flushes [of c syncType syncAddr c4]
  by (simp add: compFlushIfActive_cases commFlushIfActive_cases)

lemma example_active_returns:
  "isl (onIop example_comm_active) = False
   \<and> isl (onFlop example_comm_active) = False
   \<and> isl (onRead example_shadow example_comp_active 0x4000 2) = False
   \<and> isl (onRead example_shadow example_comm_active 0x5000 1) = False
   \<and> isl (onSync example_comp_active 1 0xA) = False"
  by code_simp

lemma example_active_facts:
  "commActive (stComm example_comm_active) = True
   \<and> isActive (stComp example_comm_active) = False
   \<and> events example_comm_active = 0 \<and> tid example_comm_active = 2
   \<and> logger example_comm_active = []
   \<and> \<not> (ucast (primsPerStCompEv example_comm_active) \<le> writes (stComp example_comm_active)
         \<or> ucast (primsPerStCompEv example_comm_active)
              \<le> reads (stComp example_comm_active) + 1)
   \<and> isActive (stComp example_comp_active) = True
   \<and> commActive (stComm example_comp_active) = False
   \<and> events example_comp_active = 0 \<and> tid example_comp_active = 2
   \<and> logger example_comp_active = []
   \<and> (\<exists>a\<in>set (byte_addrs 0x4000 2). is_comm_byte example_shadow 2 a)
   \<and> \<not> (\<exists>a\<in>set (byte_addrs 0x5000 1). is_comm_byte example_shadow 2 a)"
  by code_simp

lemma example_context_inactive:
  "isActive (stComp example_context) = False \<and> commActive (stComm example_context) = False"
  by code_simp

theorem aggregators_after_primitive_witness:
  "(\<exists>c1. onIop example_comm_active = Inr c1 \<and> commActive (stComm c1) = False
       \<and> logger c1 = [FlushComm (stComm example_comm_active) 0 2] \<and> events c1 = 1
       \<and> comms (stComm c1) = [])
   \<and> (\<exists>c2. onFlop example_comm_active = Inr c2 \<and> commActive (stComm c2) = False
       \<and> logger c2 = [FlushComm (stComm example_comm_active) 0 2] \<and> events c2 = 1
       \<and> comms (stComm c2) = [])
   \<and> (\<exists>sh' c3 ev. onRead example_shadow example_comp_active 0x4000 2 = Inr (sh', c3)
       \<and> isActive (stComp c3) = False \<and> logger c3 = [FlushComp ev 0 2] \<and> events c3 = 1
       \<and> stComp c3 = comp_init)
   \<and> (\<exists>sh' c3. onRead example_shadow example_comm_active 0x5000 1 = Inr (sh', c3)
       \<and> commActive (stComm c3) = False
       \<and> logger c3 = [FlushComm (stComm example_comm_active) 0 2] \<and> events c3 = 1
       \<and> comms (stComm c3) = [])
   \<and> (\<exists>c4. onSync example_comp_active 1 0xA = Inr c4
       \<and> isActive (stComp c4) = False \<and> commActive (stComm c4) = False
       \<and> logger c4 = [FlushComp (stComp example_comp_active) 0 2, FlushSync 1 0xA 1 2]
       \<and> events c4 = 1)
   \<and> compFlushIfActive example_context = Inr example_context
   \<and> commFlushIfActive example_context = Inr example_context"
proof -
  note ex = example_active_facts
  obtain c1 where h1: "onIop example_comm_active = Inr c1"
    using example_active_returns by (cases "onIop example_comm_active") auto
  have w1: "commActive (stComm c1) = False
       \<and> logger c1 = [FlushComm (stComm example_comm_active) 0 2] \<and> events c1 = 1
       \<and> comms (stComm c1) = []"
    using aggregators_after_primitive [of example_comm_active c1] h1 ex by simp
  obtain c2 where h2: "onFlop example_comm_active = Inr c2"
    using example_active_returns by (cases "onFlop example_comm_active") auto
  have w2: "commActive (stComm c2) = False
       \<and> logger c2 = [FlushComm (stComm example_comm_active) 0 2] \<and> events c2 = 1
       \<and> comms (stComm c2) = []"
    using aggregators_after_primitive [of example_comm_active c1 c2] h2 ex by simp
  obtain r3 where "onRead example_shadow example_comp_active 0x4000 2 = Inr r3"
    using example_active_returns
    by (cases "onRead example_shadow example_comp_active 0x4000 2") auto
  then obtain s3 c3 where h3: "onRead example_shadow example_comp_active 0x4000 2 = Inr (s3, c3)"
    by (cases r3) auto
  note t3 = aggregators_after_primitive
    [of example_comp_active c1 c2 example_shadow "0x4000" 2 s3 c3 1 "0xA" c1,
      THEN conjunct2, THEN conjunct2, THEN conjunct1, THEN mp, OF h3, THEN conjunct2]
  then obtain sh1 l f where
    l3: "onRead_loop 0x4000 2 0 (example_shadow, example_comp_active, False) = Inr (sh1, l, f)"
    and i3: "f \<longrightarrow>
                 isActive (stComp c3) = False \<and> stComm c3 = stComm l
                 \<and> logger c3 = logger example_comp_active @ (if isActive (stComp example_comp_active)
                              then [FlushComp (stComp l) (events example_comp_active) (tid example_comp_active)] else [])
                 \<and> events c3 = (if isActive (stComp example_comp_active) then events example_comp_active + 1 else events example_comp_active)
                 \<and> (isActive (stComp example_comp_active) \<longrightarrow> stComp c3 = comp_init)"
    by (metis (no_types, lifting))
  have "f" using foldE_onRead_byte [OF l3 [unfolded onRead_loop_byte_addrs] distinct_byte_addrs same_view_refl] ex
    by simp
  with i3 ex have w3: "isActive (stComp c3) = False \<and> logger c3 = [FlushComp (stComp l) 0 2]
       \<and> events c3 = 1 \<and> stComp c3 = comp_init"
    by (simp add: comp_init_def)
  obtain r5 where "onRead example_shadow example_comm_active 0x5000 1 = Inr r5"
    using example_active_returns
    by (cases "onRead example_shadow example_comm_active 0x5000 1") auto
  then obtain s5 c5 where h5: "onRead example_shadow example_comm_active 0x5000 1 = Inr (s5, c5)"
    by (cases r5) auto
  note t5 = aggregators_after_primitive
    [of example_comm_active c1 c2 example_shadow "0x5000" 1 s5 c5 1 "0xA" c1,
      THEN conjunct2, THEN conjunct2, THEN conjunct1, THEN mp, OF h5, THEN conjunct2]
  then obtain sh5 l5 f5 where
    l5: "onRead_loop 0x5000 1 0 (example_shadow, example_comm_active, False) = Inr (sh5, l5, f5)"
    and i5: "\<not> f5 \<longrightarrow>
                 commActive (stComm c5) = False
                 \<and> logger c5 = logger example_comm_active
                      @ (if commActive (stComm example_comm_active)
                         then [FlushComm (stComm example_comm_active) (events example_comm_active) (tid example_comm_active)] else [])
                      @ (if ucast (primsPerStCompEv example_comm_active) \<le> writes (stComp example_comm_active)
                            \<or> ucast (primsPerStCompEv example_comm_active) \<le> reads (stComp example_comm_active) + 1
                         then [FlushComp (incReads (stComp l5))
                                 (if commActive (stComm example_comm_active) then events example_comm_active + 1 else events example_comm_active)
                                 (tid example_comm_active)]
                         else [])
                 \<and> events c5 = (if commActive (stComm example_comm_active) then events example_comm_active + 1 else events example_comm_active)
                      + (if ucast (primsPerStCompEv example_comm_active) \<le> writes (stComp example_comm_active)
                            \<or> ucast (primsPerStCompEv example_comm_active) \<le> reads (stComp example_comm_active) + 1
                         then 1 else 0)
                 \<and> (commActive (stComm example_comm_active) \<longrightarrow> comms (stComm c5) = [])"
    by (metis (no_types, lifting))
  have "\<not> f5" using foldE_onRead_byte [OF l5 [unfolded onRead_loop_byte_addrs] distinct_byte_addrs same_view_refl] ex
    by simp
  with i5 ex have w5: "commActive (stComm c5) = False
       \<and> logger c5 = [FlushComm (stComm example_comm_active) 0 2] \<and> events c5 = 1
       \<and> comms (stComm c5) = []"
    by simp
  obtain c4 where h4: "onSync example_comp_active 1 0xA = Inr c4"
    using example_active_returns by (cases "onSync example_comp_active 1 0xA") auto
  have w4: "isActive (stComp c4) = False \<and> commActive (stComm c4) = False
       \<and> logger c4 = [FlushComp (stComp example_comp_active) 0 2, FlushSync 1 0xA 1 2]
       \<and> events c4 = 1"
    using aggregators_after_primitive
      [of example_comp_active c1 c2 example_shadow 0 0 example_shadow c1 1 "0xA" c4,
        THEN conjunct2, THEN conjunct2, THEN conjunct2, THEN conjunct1, THEN mp, OF h4] ex
    by (simp add: comp_init_def)
  have w6: "compFlushIfActive example_context = Inr example_context
     \<and> commFlushIfActive example_context = Inr example_context"
    using aggregators_after_primitive
      [of example_context c1 c2 example_shadow 0 0 example_shadow c1 1 "0xA" c1,
        THEN conjunct2, THEN conjunct2, THEN conjunct2, THEN conjunct2]
      example_context_inactive
    by simp
  from h1 w1 h2 w2 h3 w3 h5 w5 h4 w4 w6 show ?thesis by blast
qed

text \<open>
  C4, as stated, fails. The counter \<open>events\<close> starts at 0, and \<open>onSync\<close> hands it to the
  logger without bumping it: two sync primitives in a row are emitted with the event ids
  0 and 0.
\<close>

theorem eid_sequence_counterexample:
  "thread_log 1
     (run [Sync SGLPRIM_SYNC_SWAP 1, Sync SGLPRIM_SYNC_LOCK 0xA, Sync SGLPRIM_SYNC_UNLOCK 0xA]
        (GenState_init None 100 0))
   = Some [FlushSync 1 0xA 0 1, FlushSync 2 0xA 0 1]"
  by code_simp

text \<open>
  C4, amended. For every thread the counter starts at 0; each flush of an active
  aggregator emits its record with the current counter and bumps the counter exactly
  once, a flush of an inactive aggregator leaves it alone, and a counter that cannot be
  bumped is the fatal error; after any run, the event ids of the compute and
  communication records a thread has emitted are 0, 1, ..., N - 1 in this order, N being
  the thread's counter.
\<close>

theorem eid_sequence_from_zero:
  "events (ThreadContext_init t p) = 0
   \<and> compFlushIfActive c =
       (if isActive (stComp c) then
          (if events c = - 1 then Inl EventIdOverflow
           else Inr (c\<lparr>logger := logger c @ [FlushComp (stComp c) (events c) (tid c)],
                       stComp := comp_reset (stComp c), events := events c + 1\<rparr>))
        else Inr c)
   \<and> commFlushIfActive c =
       (if commActive (stComm c) then
          (if events c = - 1 then Inl EventIdOverflow
           else Inr (c\<lparr>logger := logger c @ [FlushComm (stComm c) (events c) (tid c)],
                       stComm := comm_reset (stComm c), events := events c + 1\<rparr>))
        else Inr c)
   \<and> (run ps (GenState_init lim q cur) = Inr s \<longrightarrow> tcxts s k = Some d \<longrightarrow>
        aggr_eids (logger d) = map of_nat [0..<unat (events d)])"
  using run_eid_inv [of ps lim q cur s k d]
  by (simp add: ThreadContext_init_def compFlushIfActive_cases commFlushIfActive_cases)

lemma example_run_state:
  "isl (run [Sync SGLPRIM_SYNC_SWAP 1, Mem SGLPRIM_MEM_STORE 0x4000 1,
             Sync SGLPRIM_SYNC_SWAP 2, Mem SGLPRIM_MEM_LOAD 0x4000 2,
             Comp SGLPRIM_COMP_IOP, Sync SGLPRIM_SYNC_LOCK 0xA]
          (GenState_init None 100 0)) = False
   \<and> thread_state 2
       (run [Sync SGLPRIM_SYNC_SWAP 1, Mem SGLPRIM_MEM_STORE 0x4000 1,
             Sync SGLPRIM_SYNC_SWAP 2, Mem SGLPRIM_MEM_LOAD 0x4000 2,
             Comp SGLPRIM_COMP_IOP, Sync SGLPRIM_SYNC_LOCK 0xA]
          (GenState_init None 100 0)) \<noteq> None"
  by code_simp

theorem eid_sequence_from_zero_witness:
  "\<exists>s d. run [Sync SGLPRIM_SYNC_SWAP 1, Mem SGLPRIM_MEM_STORE 0x4000 1,
              Sync SGLPRIM_SYNC_SWAP 2, Mem SGLPRIM_MEM_LOAD 0x4000 2,
              Comp SGLPRIM_COMP_IOP, Sync SGLPRIM_SYNC_LOCK 0xA]
           (GenState_init None 100 0) = Inr s
     \<and> tcxts s 2 = Some d
     \<and> aggr_eids (logger d) = map of_nat [0..<unat (events d)]"
proof -
  let ?r = "run [Sync SGLPRIM_SYNC_SWAP 1, Mem SGLPRIM_MEM_STORE 0x4000 1,
                 Sync SGLPRIM_SYNC_SWAP 2, Mem SGLPRIM_MEM_LOAD 0x4000 2,
                 Comp SGLPRIM_COMP_IOP, Sync SGLPRIM_SYNC_LOCK 0xA]
              (GenState_init None 100 0)"
  obtain s where h: "?r = Inr s"
    using example_run_state by (cases ?r) auto
  then obtain d where k: "tcxts s 2 = Some d"
    using example_run_state by (auto simp: thread_state_def)
  from eid_sequence_from_zero [of _ _ _ _ None 100 0 s 2 d] h k show ?thesis by blast
qed





text \<open>
  C6. The claim asks that the packed-binary compute record carries the aggregator's read
  ranges. \<open>CapnLogger::flush\<close> fills its \<open>readsRange\<close> from \<open>uniqueWriteAddrs\<close>: a compute
  event with the read range \<open>(0x3000, 0x3000)\<close> and no write range is emitted with no read
  range at all.
\<close>

theorem capn_read_ranges_from_writes:
  "orphans (CapnLogger_flush 1000 \<lparr>orphans = [], capnEvents = 0, messages = []\<rparr>
      \<lparr>iops = 0, flops = 0, reads = 1, writes = 0, total_events = 1,
       uniqueWriteAddrs = [], uniqueReadAddrs = [(0x3000, 0x3000)], isActive = True\<rparr> 0 1)
   = [\<lparr>capnIops = 0, capnFlops = 0, capnReads = 1, capnWrites = 0,
       writeAddrs = [], readAddrs = []\<rparr>]"
  by (simp add: CapnLogger_flush_def Let_def)

text \<open>
  C7, as stated, fails. A sync code that is none of the known ones leaves the \<open>switch\<close> of
  \<open>convertAndFlush\<close> through \<open>default\<close> with \<open>stSyncType = 0\<close>, and the guard
  \<open>stSyncType > 0\<close> skips the thread context: the run goes on, with the state as it was.
\<close>

theorem unknown_sync_counterexample:
  "onSyncEv (SGLPRIM_SYNC_OTHER 0) 0 (GenState_init None 100 0) = Inr (GenState_init None 100 0)"
  by (simp add: onSyncEv_def convertAndFlush_def)

text \<open>
  C7, amended. A sync primitive whose code is none of the ten recognised kinds and not
  the swap is ignored: it is no error, it reaches no thread context, no record is emitted
  and the state stays as it was.
\<close>

theorem unknown_sync_ignored: "onSyncEv (SGLPRIM_SYNC_OTHER n) syncID s = Inr s"
  by (simp add: onSyncEv_def convertAndFlush_def)

text \<open>
  C8. The claim asks that the local byte of a mixed load is not emitted as a read range
  of a compute record; the comment in \<open>onRead\<close> says the same: the whole event counts as
  a communication event and not as part of a computation event. \<open>onRead\<close> calls
  \<open>updateReads\<close> for every local byte before it knows that the load has a communication
  byte, and nothing takes the range out again. Thread 1 stores the byte at \<open>0x4000\<close>;
  thread 2 loads the two bytes at \<open>0x4000\<close>, the first a communication byte, the second a
  local one. With an IOP before the load, the compute record that the load flushes
  carries the read range \<open>(0x4001, 0x4001)\<close>, with the read counter at 0. With the IOP
  after the load, the range stays in the inactive compute aggregator and is emitted in
  the next compute record, after the communication record of the load.
\<close>

theorem mixed_load_local_range_emitted:
  "is_comm_byte example_shadow 2 0x4000 = True
   \<and> is_comm_byte example_shadow 2 0x4001 = False
   \<and> thread_log 2
       (run [Sync SGLPRIM_SYNC_SWAP 1, Mem SGLPRIM_MEM_STORE 0x4000 1,
             Sync SGLPRIM_SYNC_SWAP 2, Comp SGLPRIM_COMP_IOP, Mem SGLPRIM_MEM_LOAD 0x4000 2]
          (GenState_init None 100 0))
     = Some [FlushComp \<lparr>iops = 1, flops = 0, reads = 0, writes = 0, total_events = 1,
                        uniqueWriteAddrs = [], uniqueReadAddrs = [(0x4001, 0x4001)],
                        isActive = True\<rparr> 0 2]
   \<and> thread_log 2
       (run [Sync SGLPRIM_SYNC_SWAP 1, Mem SGLPRIM_MEM_STORE 0x4000 1,
             Sync SGLPRIM_SYNC_SWAP 2, Mem SGLPRIM_MEM_LOAD 0x4000 2, Comp SGLPRIM_COMP_IOP,
             Sync SGLPRIM_SYNC_LOCK 0xA]
          (GenState_init None 100 0))
     = Some [FlushComm \<lparr>comms = [(1, 0, [(0x4000, 0x4000)])], commActive = True\<rparr> 0 2,
             FlushComp \<lparr>iops = 1, flops = 0, reads = 0, writes = 0, total_events = 1,
                        uniqueWriteAddrs = [], uniqueReadAddrs = [(0x4001, 0x4001)],
                        isActive = True\<rparr> 1 2,
             FlushSync 1 0xA 2 2]"
  by code_simp

text \<open>
  C9. The claim asks that a store of size 0 changes nothing. \<open>onWrite\<close> has no case for
  it: it counts the write, marks the compute aggregator active and inserts the range
  \<open>(start, start + 0 - 1)\<close>. For \<open>start = 0x1000\<close> that range is \<open>(0x1000, 0xFFF)\<close>, which the
  assertion \<open>range.first <= range.second\<close> of \<open>AddrSet::insert\<close> rejects; for \<open>start = 0\<close>
  the subtraction wraps around and the range recorded is the whole address space.
\<close>

theorem zero_size_store:
  "onWrite (shadow_init None) (ThreadContext_init 1 100) 0x1000 0 = Inl AssertionFailed
   \<and> map_sum id snd (onWrite (shadow_init None) (ThreadContext_init 1 100) 0 0)
     = Inr ((ThreadContext_init 1 100)
         \<lparr>stComp := \<lparr>iops = 0, flops = 0, reads = 0, writes = 1, total_events = 1,
                     uniqueWriteAddrs = [(0, 0xFFFFFFFFFFFFFFFF)], uniqueReadAddrs = [],
                     isActive = True\<rparr>,
          stats := \<lparr>IOP = 0, FLOP = 0, READ = 0, WRITE = 1, INSTR = 0\<rparr>,
          barrierStats := [incMemAccesses]\<rparr>)"
  by code_simp

text \<open>
  C10. A swap to the thread that is already the current one changes nothing: no context
  is created, the thread-order list is not extended, no aggregator is flushed, no event
  id is bumped and no record is emitted. The function returns the state as it was,
  unless one of its own assertions (\<open>newTID > 0\<close>, \<open>cachedTCxt != nullptr\<close>) stops the
  run.
\<close>

theorem onSwapTCxt_same_thread:
  "currentTID s = newTID \<Longrightarrow>
   onSwapTCxt newTID s
     = (if 0 < newTID \<and> cachedTCxt s \<noteq> None then Inr s else Inl AssertionFailed)"
  by (auto simp: onSwapTCxt_def Let_def)

theorem onSwapTCxt_same_thread_witness:
  "currentTID example_state = 1 \<and> onSwapTCxt 1 example_state = Inr example_state"
proof -
  have h: "currentTID example_state = 1" by (simp add: example_state_def)
  from onSwapTCxt_same_thread [OF h] h show ?thesis by (simp add: example_state_def)
qed

end
